theory Spec2Isabelle
  imports Complex_Main
begin

section \<open>Region proposal network for GTSDB: box geometry, target assignment and losses\<close>

text \<open>
  The notebook works on numpy arrays of floating point numbers.  Numbers are modelled as
  reals: rounding and overflow are not represented.  An array is a nested list, outermost
  axis first, so an array of anchor boxes of shape (rows, cols, anc_num, 4) is a
  \<open>real list list list list\<close> and a box is the list \<open>[y1, x1, y2, x2]\<close> of its last axis.
  A vectorised numpy expression is modelled by the function it applies to each element
  along the leading axes.

  Where numpy produces a value that is not a finite number (a division by zero, the
  logarithm of a number that is not positive) the model has \<open>None\<close>; numpy raises no
  exception there.
\<close>

type_synonym box = "real list"

subsection \<open>Intersection, union and IoU\<close>

definition np_minimum :: "real list \<Rightarrow> real list \<Rightarrow> real list" where
  "np_minimum b1 b2 = map2 min b1 b2"

definition np_maximum :: "real list \<Rightarrow> real list \<Rightarrow> real list" where
  "np_maximum b1 b2 = map2 max b1 b2"

definition intersect :: "box \<Rightarrow> box \<Rightarrow> real" where
  "intersect b1 b2 =
     (let m = np_minimum b1 b2;
          M = np_maximum b1 b2;
          h = max (m ! 2 - M ! 0) 0;
          w = max (m ! 3 - M ! 1) 0
      in w * h)"

definition union_boxes :: "box \<Rightarrow> box \<Rightarrow> real \<Rightarrow> real" where
  "union_boxes b1 b2 iarea =
     (let a1 = (b1 ! 2 - b1 ! 0) * (b1 ! 3 - b1 ! 1);
          a2 = (b2 ! 2 - b2 ! 0) * (b2 ! 3 - b2 ! 1)
      in a1 + a2 - iarea)"

text \<open>Float division of numpy: no exception, but no finite number when the divisor is 0.\<close>

definition np_div :: "real \<Rightarrow> real \<Rightarrow> real option" where
  "np_div a b = (if b = 0 then None else Some (a / b))"

definition iou :: "box \<Rightarrow> box \<Rightarrow> real option" where
  "iou b1 b2 =
     (let iarea = intersect b1 b2;
          uarea = union_boxes b1 b2 iarea
      in np_div iarea uarea)"

text \<open>The notions the properties of the geometry are stated with.\<close>

definition area :: "box \<Rightarrow> real" where
  "area b = (b ! 2 - b ! 0) * (b ! 3 - b ! 1)"

definition inside :: "box \<Rightarrow> real \<times> real \<Rightarrow> bool" where
  "inside b p = (b ! 0 \<le> fst p \<and> fst p \<le> b ! 2 \<and> b ! 1 \<le> snd p \<and> snd p \<le> b ! 3)"

definition axis_overlap :: "real \<Rightarrow> real \<Rightarrow> real \<Rightarrow> real \<Rightarrow> real" where
  "axis_overlap lo1 hi1 lo2 hi2 = max 0 (min hi1 hi2 - max lo1 lo2)"

definition common_box :: "box \<Rightarrow> box \<Rightarrow> box" where
  "common_box b1 b2 =
     [max (b1 ! 0) (b2 ! 0), max (b1 ! 1) (b2 ! 1), min (b1 ! 2) (b2 ! 2), min (b1 ! 3) (b2 ! 3)]"

definition common_area :: "box \<Rightarrow> box \<Rightarrow> real" where
  "common_area b1 b2 =
     (let c = common_box b1 b2
      in if c ! 0 \<le> c ! 2 \<and> c ! 1 \<le> c ! 3 then area c else 0)"


subsection \<open>Box parametrisation\<close>

text \<open>The natural logarithm of numpy: no finite number for an argument that is not positive.\<close>

definition np_log :: "real option \<Rightarrow> real option" where
  "np_log x = (case x of None \<Rightarrow> None | Some v \<Rightarrow> if v \<le> 0 then None else Some (ln v))"

definition coords2param :: "box \<Rightarrow> box \<Rightarrow> real option list" where
  "coords2param anc gtb =
     (let wa = anc ! 3 - anc ! 1;
          ha = anc ! 2 - anc ! 0;
          tx = np_div (gtb ! 1 - anc ! 1) wa;
          ty = np_div (gtb ! 1 - anc ! 1) ha;
          tw = np_log (np_div (gtb ! 3 - gtb ! 1) wa);
          th = np_log (np_div (gtb ! 2 - gtb ! 0) ha)
      in [tx, ty, tw, th])"

subsection \<open>Anchor generation\<close>

text \<open>\<open>np.indices((rows, cols)).transpose((1, 2, 0))\<close>: the entry at (i, j) is \<open>[i, j]\<close>.\<close>

definition np_indices_t :: "nat \<Rightarrow> nat \<Rightarrow> real list list list" where
  "np_indices_t rows cols = map (\<lambda>i. map (\<lambda>j. [real i, real j]) [0..<cols]) [0..<rows]"

text \<open>\<open>np.tile(_, 2)\<close> repeats the last axis twice.\<close>

definition np_tile2 :: "'a list \<Rightarrow> 'a list" where
  "np_tile2 v = v @ v"

definition get_anchors :: "nat \<Rightarrow> nat \<Rightarrow> real list \<Rightarrow> real \<Rightarrow> box list list list" where
  "get_anchors rows cols sizes stride =
     (let centres = map (map (\<lambda>v. replicate (length sizes)
                       (np_tile2 (map (\<lambda>t. t * stride + 0.5) v)))) (np_indices_t rows cols);
          offsets = map (\<lambda>s. map2 (*) (replicate 4 s) [- 0.5, - 0.5, 0.5, 0.5]) sizes
      in map (map (\<lambda>cell. map2 (map2 (+)) cell offsets)) centres)"

subsection \<open>Assigning anchors to ground-truth boxes\<close>

datatype error = ValueError | IndexError | OSError

text \<open>
  An IoU is \<open>None\<close> only as 0/0 (lemma \<open>iou_None_zero_by_zero\<close> below), which is nan in
  numpy.  The reductions and comparisons on IoUs follow numpy's rules for nan: \<open>max\<close>
  propagates it, every comparison with it is false, and \<open>argmax\<close> returns the position
  of the first nan, else of the first maximum.  numpy raises ValueError for the maximum
  of an empty array; the callers below test for emptiness first.
\<close>

definition np_max2 :: "real option \<Rightarrow> real option \<Rightarrow> real option" where
  "np_max2 a b = (case (a, b) of (Some x, Some y) \<Rightarrow> Some (max x y) | _ \<Rightarrow> None)"

fun np_max :: "real option list \<Rightarrow> real option" where
  "np_max [] = None"
| "np_max (x # xs) = fold np_max2 xs x"

definition np_ge :: "real option \<Rightarrow> real \<Rightarrow> bool" where
  "np_ge a b = (case a of None \<Rightarrow> False | Some x \<Rightarrow> x \<ge> b)"

definition np_le :: "real option \<Rightarrow> real \<Rightarrow> bool" where
  "np_le a b = (case a of None \<Rightarrow> False | Some x \<Rightarrow> x \<le> b)"

definition np_gt :: "real option \<Rightarrow> real \<Rightarrow> bool" where
  "np_gt a b = (case a of None \<Rightarrow> False | Some x \<Rightarrow> x > b)"

definition np_eq :: "real option \<Rightarrow> real option \<Rightarrow> bool" where
  "np_eq a b = (case (a, b) of (Some x, Some y) \<Rightarrow> x = y | _ \<Rightarrow> False)"

fun first_index :: "('a \<Rightarrow> bool) \<Rightarrow> 'a list \<Rightarrow> nat" where
  "first_index P [] = 0"
| "first_index P (x # xs) = (if P x then 0 else Suc (first_index P xs))"

definition np_argmax :: "real option list \<Rightarrow> nat" where
  "np_argmax xs =
     (if None \<in> set xs then first_index (\<lambda>x. x = None) xs
      else first_index (\<lambda>x. x = np_max xs) xs)"

definition map3l :: "('a \<Rightarrow> 'b) \<Rightarrow> 'a list list list \<Rightarrow> 'b list list list" where
  "map3l f t = map (map (map f)) t"

definition ravel :: "'a list list list \<Rightarrow> 'a list" where
  "ravel t = concat (concat t)"

definition anchors_vs_gt ::
  "box list list list \<Rightarrow> box list \<Rightarrow> real \<Rightarrow> real \<Rightarrow>
     error + (bool list list list \<times> bool list list list \<times> real option list list list list)" where
  "anchors_vs_gt ancs gtbs lo hi =
     (if gtbs = [] then Inl ValueError
      else
        let ious = map3l (\<lambda>anc. map (\<lambda>gtb. iou anc gtb) gtbs) ancs;
            flat = ravel ious
        in if flat = [] then Inl ValueError
           else
             let best = map (\<lambda>g. np_max (map (\<lambda>row. row ! g) flat)) [0..<length gtbs];
                 box_pos = map3l (\<lambda>row. np_ge (np_max row) hi \<or>
                             list_ex (\<lambda>g. np_eq (row ! g) (best ! g) \<and> np_gt (best ! g) 0)
                               [0..<length gtbs]) ious;
                 box_neg = map3l (\<lambda>row. np_le (np_max row) lo) ious;
                 best_gt = map3l (\<lambda>row. gtbs ! np_argmax row) ious
             in Inr (box_pos, box_neg, map2 (map2 (map2 coords2param)) ancs best_gt))"

text \<open>
  The expression of \<open>anchors_vs_gt\<close> for \<open>box_pos\<close> at one anchor, with \<open>all_ancs\<close> the
  anchors of the whole array: the entries of \<open>best\<close> are the maxima over them.
\<close>

definition marks_pos :: "box list \<Rightarrow> box list \<Rightarrow> real \<Rightarrow> box \<Rightarrow> bool" where
  "marks_pos all_ancs gtbs hi anc =
     (np_ge (np_max (map (\<lambda>gtb. iou anc gtb) gtbs)) hi \<or>
      list_ex (\<lambda>g. np_eq (iou anc (gtbs ! g)) (np_max (map (\<lambda>a. iou a (gtbs ! g)) all_ancs))
                 \<and> np_gt (np_max (map (\<lambda>a. iou a (gtbs ! g)) all_ancs)) 0) [0..<length gtbs])"

text \<open>The IoU as a real number, for the boxes where \<open>iou\<close> is one.\<close>

definition iou_value :: "box \<Rightarrow> box \<Rightarrow> real" where
  "iou_value b1 b2 = intersect b1 b2 / union_boxes b1 b2 (intersect b1 b2)"

subsection \<open>Sampling the anchors of a mini-batch\<close>

text \<open>
  A mask of any shape is given by its elements in row-major order, the order in which
  \<open>np.where\<close> lists the true entries.  The two arguments \<open>cp\<close> and \<open>cn\<close> are the outcomes
  of the two calls of \<open>np.random.choice(n, k, replace=False)\<close>, each a list of \<open>k\<close>
  distinct numbers below \<open>n\<close> (\<open>choice_ok\<close>); an outcome is read only when its call is made.
  The masks are two arrays: the source updates them in place and returns them.  The index
  \<open>np.vsplit(...)\<close> of the assignment is a list with one row of positions for each axis;
  it is read as a tuple of index arrays, one position for each chosen column, as numpy
  read it when the notebook was written.
\<close>

definition count_true :: "bool list \<Rightarrow> nat" where
  "count_true m = length (filter (\<lambda>b. b) m)"

definition np_where :: "bool list \<Rightarrow> nat list" where
  "np_where m = filter (\<lambda>i. m ! i) [0..<length m]"

definition clear_at :: "bool list \<Rightarrow> nat list \<Rightarrow> bool list" where
  "clear_at m idx = fold (\<lambda>i acc. acc[i := False]) idx m"

definition choice_ok :: "nat \<Rightarrow> nat \<Rightarrow> nat list \<Rightarrow> bool" where
  "choice_ok n k c = (length c = k \<and> distinct c \<and> (\<forall>x\<in>set c. x < n))"

definition filter_boxes ::
  "bool list \<Rightarrow> bool list \<Rightarrow> nat \<Rightarrow> nat list \<Rightarrow> nat list \<Rightarrow> bool list \<times> bool list" where
  "filter_boxes pos neg num cp cn =
     (let p_num = count_true pos;
          n_num = count_true neg;
          (pos', p_num') =
             (if real p_num > real num / 2
              then (clear_at pos (map (\<lambda>k. np_where pos ! k) cp), num div 2)
              else (pos, p_num));
          neg' =
             (if n_num + p_num' > num
              then clear_at neg (map (\<lambda>k. np_where neg ! k) cn)
              else neg)
      in (pos', neg'))"

text \<open>
  \<open>choices_ok\<close>: the two outcomes are lists that the two calls of \<open>np.random.choice\<close> in
  \<open>filter_boxes pos neg num\<close> can return, for the calls that are made.
\<close>

definition choices_ok :: "bool list \<Rightarrow> bool list \<Rightarrow> nat \<Rightarrow> nat list \<Rightarrow> nat list \<Rightarrow> bool" where
  "choices_ok pos neg num cp cn =
     (let p_num = count_true pos;
          n_num = count_true neg;
          p_num' = (if real p_num > real num / 2 then num div 2 else p_num)
      in (real p_num > real num / 2 \<longrightarrow> choice_ok p_num (p_num - num div 2) cp)
       \<and> (n_num + p_num' > num \<longrightarrow> choice_ok n_num (n_num + p_num' - num) cn))"

subsection \<open>Losses\<close>

text \<open>
  The tensors of the losses have shape (rows, cols, channels).  \<open>t[..., :n]\<close> and
  \<open>t[..., n:]\<close> slice the last axis; an arithmetic expression on tensors of one shape
  applies to the elements at each position; \<open>K.sum\<close> adds all elements.
\<close>

definition shape3 :: "nat \<Rightarrow> nat \<Rightarrow> nat \<Rightarrow> 'a list list list \<Rightarrow> bool" where
  "shape3 rows cols ch t =
     (length t = rows \<and> (\<forall>row\<in>set t. length row = cols \<and> (\<forall>cell\<in>set row. length cell = ch)))"

definition slice_to :: "nat \<Rightarrow> 'a list list list \<Rightarrow> 'a list list list" where
  "slice_to n t = map (map (take n)) t"

definition slice_from :: "nat \<Rightarrow> 'a list list list \<Rightarrow> 'a list list list" where
  "slice_from n t = map (map (drop n)) t"

definition ew3_1 :: "('a \<Rightarrow> 'b \<Rightarrow> 'c \<Rightarrow> 'd) \<Rightarrow> 'a list \<Rightarrow> 'b list \<Rightarrow> 'c list \<Rightarrow> 'd list" where
  "ew3_1 f xs ys zs = map (\<lambda>(x, y, z). f x y z) (zip xs (zip ys zs))"

definition ew3 ::
  "('a \<Rightarrow> 'b \<Rightarrow> 'c \<Rightarrow> 'd) \<Rightarrow> 'a list list list \<Rightarrow> 'b list list list \<Rightarrow> 'c list list list
     \<Rightarrow> 'd list list list" where
  "ew3 f a b c = ew3_1 (ew3_1 (ew3_1 f)) a b c"

definition K_sum :: "real list list list \<Rightarrow> real" where
  "K_sum t = sum_list (map (\<lambda>row. sum_list (map sum_list row)) t)"

definition regr_term :: "real \<Rightarrow> real \<Rightarrow> real \<Rightarrow> real" where
  "regr_term ytrue ypred ptrue =
     (let dy = ytrue - ypred;
          sw = (if \<bar>dy\<bar> < 1 then 1 else 0);
          r1 = sw * dy * dy * 0.5;
          r2 = (1 - sw) * (\<bar>dy\<bar> - 0.5)
      in (r1 + r2) * ptrue)"

definition regr_loss :: "real list list list \<Rightarrow> real list list list \<Rightarrow> real list list list \<Rightarrow> real" where
  "regr_loss ytrue ypred ptrue = K_sum (ew3 regr_term ytrue ypred ptrue)"

definition rpn_regr_loss :: "nat \<Rightarrow> real list list list \<Rightarrow> real list list list \<Rightarrow> real" where
  "rpn_regr_loss num_ancs ytrue ypred =
     regr_loss (slice_from (4 * num_ancs) ytrue) ypred (slice_to (4 * num_ancs) ytrue)"

definition smoothL1 :: "real \<Rightarrow> real" where
  "smoothL1 d = (if \<bar>d\<bar> < 1 then 0.5 * d\<^sup>2 else \<bar>d\<bar> - 0.5)"

text \<open>
  \<open>K.log\<close> has no finite value for an argument that is not positive, and a sum with such
  a term is not a finite number either.
\<close>

definition K_log :: "real \<Rightarrow> real option" where
  "K_log x = (if x \<le> 0 then None else Some (ln x))"

definition cls_term :: "real \<Rightarrow> real \<Rightarrow> real \<Rightarrow> real option" where
  "cls_term postrue negtrue ppred =
     (case (K_log (1 / 10000 + ppred), K_log (1 / 10000 + 1 - ppred)) of
        (Some lp, Some ln') \<Rightarrow> Some (- postrue * lp - negtrue * ln')
      | _ \<Rightarrow> None)"

definition K_sum_opt :: "real option list list list \<Rightarrow> real option" where
  "K_sum_opt t = (if None \<in> set (ravel t) then None else Some (K_sum (map3l the t)))"

definition cls_loss ::
  "real list list list \<Rightarrow> real list list list \<Rightarrow> real list list list \<Rightarrow> real option" where
  "cls_loss postrue negtrue ppred = K_sum_opt (ew3 cls_term postrue negtrue ppred)"

definition rpn_cls_loss :: "nat \<Rightarrow> real list list list \<Rightarrow> real list list list \<Rightarrow> real option" where
  "rpn_cls_loss num_ancs ptrue ppred =
     cls_loss (slice_to num_ancs ptrue) (slice_from num_ancs ptrue) ppred"

subsection \<open>The data generator\<close>

text \<open>
  The ground-truth file is the parameter \<open>lines\<close>: the list of its lines, each the list of
  its integer fields (image number, left, top, right, bottom, class); splitting the lines
  and converting the fields are not represented.  \<open>imread\<close> gives the image of a number,
  \<open>None\<close> for a file that cannot be read, where the source raises an OSError, and \<open>rnd\<close>
  gives the outcomes of the random choices made for an image.  A generator is run to its end: the result is the list of the items
  it yields and the exception that stopped it, if one did.

  The coordinates of the ground-truth boxes are int32 in the source and are converted to
  reals here before any arithmetic.  The two agree as long as no int32 difference or
  product in \<open>union\<close> and \<open>coords2param\<close> wraps, which holds for coordinates between 0 and
  46340.
\<close>

text \<open>
  \<open>np.loadtxt\<close> returns a two-dimensional array for a file of at least two lines and two
  columns.  It drops an axis of length one, so the array of a file with one line or one
  column has fewer than two dimensions (\<open>Flat\<close>, with its elements), as has the empty array
  of an empty file.  Lines with different numbers of fields raise ValueError.
\<close>

datatype loaded = Flat "int list" | Table "int list list"

definition ncols :: "'a list list \<Rightarrow> nat" where
  "ncols rows = (case rows of [] \<Rightarrow> 0 | row # _ \<Rightarrow> length row)"

definition np_loadtxt :: "int list list \<Rightarrow> error + loaded" where
  "np_loadtxt lines =
     (if list_ex (\<lambda>row. length row \<noteq> ncols lines) lines then Inl ValueError
      else if length lines \<le> 1 \<or> ncols lines \<le> 1 then Inr (Flat (concat lines))
      else Inr (Table lines))"

fun take_chunks :: "nat list \<Rightarrow> 'a list \<Rightarrow> 'a list list" where
  "take_chunks [] xs = []"
| "take_chunks (n # ns) xs = take n xs # take_chunks ns (drop n xs)"

text \<open>The elements \<open>flat\<close>, in row-major order, in an array of the shape of \<open>t\<close>.\<close>

definition reshape_like :: "'b list list list \<Rightarrow> 'a list \<Rightarrow> 'a list list list" where
  "reshape_like t flat =
     map2 (\<lambda>row chunk. take_chunks (map length row) chunk) t
       (take_chunks (map (\<lambda>row. length (concat row)) t) flat)"

definition np_repeat :: "nat \<Rightarrow> 'a list \<Rightarrow> 'a list" where
  "np_repeat n xs = concat (map (replicate n) xs)"

definition np_arange :: "int \<Rightarrow> int \<Rightarrow> int list" where
  "np_arange start stop = [start..stop - 1]"

text \<open>
  The rows of image \<open>i\<close>, \<open>csv[csv[:,0] == i]\<close>, with the columns in the order
  \<open>[2, 1, 4, 3]\<close>: the boxes \<open>[y1, x1, y2, x2]\<close> of the image.  The index \<open>csv[:,0]\<close> raises
  IndexError for an array of fewer than two dimensions, and the column index 4 raises
  IndexError for an array of fewer than five columns.
\<close>

definition gt_boxes :: "loaded \<Rightarrow> int \<Rightarrow> error + int list list" where
  "gt_boxes csv i =
     (case csv of
        Flat xs \<Rightarrow> Inl IndexError
      | Table rows \<Rightarrow>
          (let temp = filter (\<lambda>row. row ! 0 = i) rows
           in if ncols rows < 5 then Inl IndexError
              else Inr (map (\<lambda>row. [row ! 2, row ! 1, row ! 4, row ! 3]) temp)))"

definition datagen_step ::
  "box list list list \<Rightarrow> loaded \<Rightarrow> (int \<Rightarrow> nat list \<times> nat list) \<Rightarrow> (int \<Rightarrow> 'img option) \<Rightarrow> int
     \<Rightarrow> error + ('img list \<times> int list list list list \<times> real option list list list list)" where
  "datagen_step ancs csv rnd imread i =
     (case gt_boxes csv i of
        Inl e \<Rightarrow> Inl e
      | Inr temp \<Rightarrow>
          (case anchors_vs_gt ancs (map (map real_of_int) temp) 0.3 0.7 of
             Inl e \<Rightarrow> Inl e
           | Inr (pos, neg, gtbs) \<Rightarrow>
               (let gtbs = map (map concat) gtbs;
                    (fpos, fneg) = filter_boxes (ravel pos) (ravel neg) 256 (fst (rnd i)) (snd (rnd i));
                    pos = reshape_like pos fpos;
                    neg = reshape_like neg fneg
                in case imread i of
                     None \<Rightarrow> Inl OSError
                   | Some img \<Rightarrow>
                       (let x_img = [img];
                            y_cls = [map2 (map2 (@))
                                       (map3l (\<lambda>b. if b then 1 else 0) pos)
                                       (map3l (\<lambda>b. if b then 1 else 0) neg)];
                            y_regr = [map2 (map2 (@))
                                        (map (map (np_repeat 4))
                                           (map3l (\<lambda>b. Some (if b then 1 else 0)) pos))
                                        gtbs]
                        in Inr (x_img, y_cls, y_regr)))))"

text \<open>\<open>if ancs is None: ancs = get_anchors(200, 340, [16,24,32], 4)\<close>\<close>

definition default_ancs :: "box list list list option \<Rightarrow> box list list list" where
  "default_ancs ancs = (case ancs of None \<Rightarrow> get_anchors 200 340 [16, 24, 32] 4 | Some a \<Rightarrow> a)"

fun run_gen :: "(int \<Rightarrow> error + 'a) \<Rightarrow> int list \<Rightarrow> 'a list \<times> error option" where
  "run_gen f [] = ([], None)"
| "run_gen f (i # is) =
     (case f i of
        Inl e \<Rightarrow> ([], Some e)
      | Inr y \<Rightarrow> (let (ys, e) = run_gen f is in (y # ys, e)))"

definition datagen ::
  "int \<Rightarrow> int \<Rightarrow> box list list list option \<Rightarrow> bool \<Rightarrow> int list list
     \<Rightarrow> (int \<Rightarrow> nat list \<times> nat list) \<Rightarrow> (int \<Rightarrow> 'img option)
     \<Rightarrow> ('img list \<times> int list list list list \<times> real option list list list list) list \<times> error option" where
  "datagen start stop ancs shuffle lines rnd imread =
     (let ancs = default_ancs ancs
      in case np_loadtxt lines of
           Inl e \<Rightarrow> ([], Some e)
         | Inr csv \<Rightarrow>
             (let idx = np_arange start stop
              in run_gen (datagen_step ancs csv rnd imread) idx))"

text \<open>The outcomes of a run in which no random choice is made.\<close>

definition no_choice :: "int \<Rightarrow> nat list \<times> nat list" where
  "no_choice i = ([], [])"

section \<open>Properties\<close>

subsection \<open>Properties of the geometry\<close>

lemma intersect_boxes:
  "intersect [y1, x1, y2, x2] [v1, u1, v2, u2] =
     axis_overlap x1 x2 u1 u2 * axis_overlap y1 y2 v1 v2"
  by (simp add: intersect_def np_minimum_def np_maximum_def axis_overlap_def Let_def max.commute)

lemma union_boxes_boxes:
  "union_boxes [y1, x1, y2, x2] [v1, u1, v2, u2] i =
     (y2 - y1) * (x2 - x1) + (v2 - v1) * (u2 - u1) - i"
  by (simp add: union_boxes_def)

lemma axis_overlap_nonneg: "0 \<le> axis_overlap a b c d"
  by (simp add: axis_overlap_def)

lemma axis_overlap_le_left: "a \<le> b \<Longrightarrow> axis_overlap a b c d \<le> b - a"
  by (auto simp: axis_overlap_def)

lemma axis_overlap_le_right: "c \<le> d \<Longrightarrow> axis_overlap a b c d \<le> d - c"
  by (auto simp: axis_overlap_def)

lemma common_le_left:
  assumes "y1 \<le> y2" "x1 \<le> x2"
  shows "axis_overlap x1 x2 u1 u2 * axis_overlap y1 y2 v1 v2 \<le> (y2 - y1) * (x2 - x1)"
proof -
  have "axis_overlap x1 x2 u1 u2 * axis_overlap y1 y2 v1 v2 \<le> (x2 - x1) * (y2 - y1)"
    using assms by (intro mult_mono axis_overlap_le_left axis_overlap_nonneg) auto
  then show ?thesis by (simp add: mult.commute)
qed

lemma common_le_right:
  assumes "v1 \<le> v2" "u1 \<le> u2"
  shows "axis_overlap x1 x2 u1 u2 * axis_overlap y1 y2 v1 v2 \<le> (v2 - v1) * (u2 - u1)"
proof -
  have "axis_overlap x1 x2 u1 u2 * axis_overlap y1 y2 v1 v2 \<le> (u2 - u1) * (v2 - v1)"
    using assms by (intro mult_mono axis_overlap_le_right axis_overlap_nonneg) auto
  then show ?thesis by (simp add: mult.commute)
qed

lemma iou_boxes:
  "iou [y1, x1, y2, x2] [v1, u1, v2, u2] =
     np_div (axis_overlap x1 x2 u1 u2 * axis_overlap y1 y2 v1 v2)
       ((y2 - y1) * (x2 - x1) + (v2 - v1) * (u2 - u1)
          - axis_overlap x1 x2 u1 u2 * axis_overlap y1 y2 v1 v2)"
  by (simp add: iou_def Let_def intersect_boxes union_boxes_boxes)

lemma common_area_boxes:
  "common_area [y1, x1, y2, x2] [v1, u1, v2, u2] =
     axis_overlap x1 x2 u1 u2 * axis_overlap y1 y2 v1 v2"
  by (auto simp: common_area_def common_box_def area_def axis_overlap_def Let_def max_def)

lemma inside_common_box:
  "inside (common_box [y1, x1, y2, x2] [v1, u1, v2, u2]) p \<longleftrightarrow>
     inside [y1, x1, y2, x2] p \<and> inside [v1, u1, v2, u2] p"
  by (auto simp: inside_def common_box_def)

lemma union_pos:
  assumes "y1 \<le> y2" "x1 \<le> x2" "v1 \<le> v2" "u1 \<le> u2"
    and "(y1 < y2 \<and> x1 < x2) \<or> (v1 < v2 \<and> u1 < u2)"
  shows "0 < (y2 - y1) * (x2 - x1) + (v2 - v1) * (u2 - u1)
          - axis_overlap x1 x2 u1 u2 * axis_overlap y1 y2 v1 v2"
proof -
  let ?i = "axis_overlap x1 x2 u1 u2 * axis_overlap y1 y2 v1 v2"
  have l: "?i \<le> (y2 - y1) * (x2 - x1)" using assms(1,2) by (rule common_le_left)
  have r: "?i \<le> (v2 - v1) * (u2 - u1)" using assms(3,4) by (rule common_le_right)
  have a1: "0 \<le> (y2 - y1) * (x2 - x1)" using assms by simp
  have a2: "0 \<le> (v2 - v1) * (u2 - u1)" using assms by simp
  from assms(5) show ?thesis
  proof
    assume "y1 < y2 \<and> x1 < x2"
    then have "0 < (y2 - y1) * (x2 - x1)" by simp
    with r show ?thesis by linarith
  next
    assume "v1 < v2 \<and> u1 < u2"
    then have "0 < (v2 - v1) * (u2 - u1)" by simp
    with l show ?thesis by linarith
  qed
qed

text \<open>
  Claim C3.  For boxes \<open>[y1, x1, y2, x2]\<close> and \<open>[v1, u1, v2, u2]\<close> with \<open>y1 \<le> y2\<close>, \<open>x1 \<le> x2\<close>,
  \<open>v1 \<le> v2\<close> and \<open>u1 \<le> u2\<close>, \<open>intersect\<close> is the product of the overlaps of the two axes, each
  clamped at 0, which is the area of the box of the points that lie in both boxes;
  \<open>union\<close> applied to that value is the sum of the two areas minus the common area; and
  when one of the boxes has positive area, \<open>iou\<close> is a number between 0 and 1.
\<close>

theorem intersect_union_iou_correct:
  assumes "y1 \<le> y2" "x1 \<le> x2" "v1 \<le> v2" "u1 \<le> u2"
  shows "intersect [y1, x1, y2, x2] [v1, u1, v2, u2]
           = axis_overlap y1 y2 v1 v2 * axis_overlap x1 x2 u1 u2
       \<and> intersect [y1, x1, y2, x2] [v1, u1, v2, u2]
           = common_area [y1, x1, y2, x2] [v1, u1, v2, u2]
       \<and> (\<forall>p. inside [y1, x1, y2, x2] p \<and> inside [v1, u1, v2, u2] p
              \<longleftrightarrow> inside (common_box [y1, x1, y2, x2] [v1, u1, v2, u2]) p)
       \<and> union_boxes [y1, x1, y2, x2] [v1, u1, v2, u2]
             (intersect [y1, x1, y2, x2] [v1, u1, v2, u2])
           = area [y1, x1, y2, x2] + area [v1, u1, v2, u2]
               - common_area [y1, x1, y2, x2] [v1, u1, v2, u2]
       \<and> (0 < area [y1, x1, y2, x2] \<or> 0 < area [v1, u1, v2, u2] \<longrightarrow>
            (\<exists>r. iou [y1, x1, y2, x2] [v1, u1, v2, u2] = Some r
                 \<and> r = intersect [y1, x1, y2, x2] [v1, u1, v2, u2]
                       / union_boxes [y1, x1, y2, x2] [v1, u1, v2, u2]
                           (intersect [y1, x1, y2, x2] [v1, u1, v2, u2])
                 \<and> 0 \<le> r \<and> r \<le> 1))"
proof -
  let ?i = "axis_overlap x1 x2 u1 u2 * axis_overlap y1 y2 v1 v2"
  let ?u = "(y2 - y1) * (x2 - x1) + (v2 - v1) * (u2 - u1) - ?i"
  have i0: "0 \<le> ?i" by (simp add: axis_overlap_nonneg)
  have l: "?i \<le> (y2 - y1) * (x2 - x1)" using assms(1,2) by (rule common_le_left)
  have r: "?i \<le> (v2 - v1) * (u2 - u1)" using assms(3,4) by (rule common_le_right)
  have iu: "?i \<le> ?u" using l r i0 by linarith
  have c1: "intersect [y1, x1, y2, x2] [v1, u1, v2, u2]
           = axis_overlap y1 y2 v1 v2 * axis_overlap x1 x2 u1 u2"
    by (simp add: intersect_boxes mult.commute)
  have c2: "intersect [y1, x1, y2, x2] [v1, u1, v2, u2]
           = common_area [y1, x1, y2, x2] [v1, u1, v2, u2]"
    by (simp add: intersect_boxes common_area_boxes)
  have c3: "\<forall>p. inside [y1, x1, y2, x2] p \<and> inside [v1, u1, v2, u2] p
              \<longleftrightarrow> inside (common_box [y1, x1, y2, x2] [v1, u1, v2, u2]) p"
    by (simp add: inside_common_box)
  have c4: "union_boxes [y1, x1, y2, x2] [v1, u1, v2, u2]
             (intersect [y1, x1, y2, x2] [v1, u1, v2, u2])
           = area [y1, x1, y2, x2] + area [v1, u1, v2, u2]
               - common_area [y1, x1, y2, x2] [v1, u1, v2, u2]"
    by (simp add: union_boxes_boxes intersect_boxes common_area_boxes area_def)
  have c5: "\<exists>r. iou [y1, x1, y2, x2] [v1, u1, v2, u2] = Some r
                 \<and> r = intersect [y1, x1, y2, x2] [v1, u1, v2, u2]
                       / union_boxes [y1, x1, y2, x2] [v1, u1, v2, u2]
                           (intersect [y1, x1, y2, x2] [v1, u1, v2, u2])
                 \<and> 0 \<le> r \<and> r \<le> 1"
    if pos: "0 < area [y1, x1, y2, x2] \<or> 0 < area [v1, u1, v2, u2]"
  proof -
    have "0 < (y2 - y1) * (x2 - x1) \<or> 0 < (v2 - v1) * (u2 - u1)"
      using pos by (simp add: area_def)
    then have upos: "0 < ?u" using l r by linarith
    have "iou [y1, x1, y2, x2] [v1, u1, v2, u2] = Some (?i / ?u)"
      using upos by (simp add: iou_boxes np_div_def)
    moreover have "?i / ?u = intersect [y1, x1, y2, x2] [v1, u1, v2, u2]
                       / union_boxes [y1, x1, y2, x2] [v1, u1, v2, u2]
                           (intersect [y1, x1, y2, x2] [v1, u1, v2, u2])"
      by (simp add: intersect_boxes union_boxes_boxes)
    moreover have "0 \<le> ?i / ?u" using i0 upos by simp
    moreover have "?i / ?u \<le> 1" using iu upos by simp
    ultimately show ?thesis by (intro exI [of _ "?i / ?u"] conjI)
  qed
  from c1 c2 c3 c4 c5 show ?thesis by blast
qed

text \<open>The boxes \<open>[0, 0, 2, 2]\<close> and \<open>[1, 1, 3, 3]\<close> share a unit square.\<close>

theorem intersect_union_iou_correct_witness:
  "(0::real) \<le> 2 \<and> (1::real) \<le> 3
     \<and> intersect [0, 0, 2, 2] [1, 1, 3, 3] = 1
     \<and> union_boxes [0, 0, 2, 2] [1, 1, 3, 3] (intersect [0, 0, 2, 2] [1, 1, 3, 3]) = 7
     \<and> iou [0, 0, 2, 2] [1, 1, 3, 3] = Some (1 / 7)"
  using intersect_union_iou_correct [of 0 2 0 2 1 3 1 3]
  by (auto simp: axis_overlap_def area_def common_area_boxes intersect_boxes union_boxes_boxes)

text \<open>
  A box with positive width and height and a box whose height is negative: the union is
  0 and the division of \<open>iou\<close> is 0/0.
\<close>

theorem union_zero_counterexample:
  "(0::real) < 1 - 0 \<and> (0::real) < 1 - 0
     \<and> \<not> 0 < union_boxes [0, 0, 1, 1] [0, 0, - 1, 1] (intersect [0, 0, 1, 1] [0, 0, - 1, 1])
     \<and> iou [0, 0, 1, 1] [0, 0, - 1, 1] = None"
  by (simp add: iou_boxes union_boxes_boxes intersect_boxes axis_overlap_def np_div_def)

text \<open>
  Claim C8, amended.  When both boxes have non-negative width and height and one of them
  has positive width and height, the union is positive, so \<open>iou\<close> divides by a number
  that is not 0 and returns the quotient of intersection and union.
\<close>

theorem union_positive:
  assumes "y1 \<le> y2" "x1 \<le> x2" "v1 \<le> v2" "u1 \<le> u2"
    and "(y1 < y2 \<and> x1 < x2) \<or> (v1 < v2 \<and> u1 < u2)"
  shows "0 < union_boxes [y1, x1, y2, x2] [v1, u1, v2, u2]
               (intersect [y1, x1, y2, x2] [v1, u1, v2, u2])
       \<and> iou [y1, x1, y2, x2] [v1, u1, v2, u2]
           = Some (intersect [y1, x1, y2, x2] [v1, u1, v2, u2]
                    / union_boxes [y1, x1, y2, x2] [v1, u1, v2, u2]
                        (intersect [y1, x1, y2, x2] [v1, u1, v2, u2]))"
  using union_pos [OF assms]
  by (simp add: iou_boxes union_boxes_boxes intersect_boxes np_div_def)

text \<open>A square and a box of height 0.\<close>

theorem union_positive_witness:
  "0 < union_boxes [0, 0, 2, 2] [1, 1, 1, 3] (intersect [0, 0, 2, 2] [1, 1, 1, 3])
     \<and> iou [0, 0, 2, 2] [1, 1, 1, 3] = Some 0"
  using union_positive [of 0 2 0 2 1 1 1 3]
  by (simp add: intersect_boxes axis_overlap_def)

text \<open>A division by zero in \<open>iou\<close> is always 0/0: a positive intersection has a positive union.\<close>

lemma iou_None_zero_by_zero:
  assumes "iou [y1, x1, y2, x2] [v1, u1, v2, u2] = None"
  shows "intersect [y1, x1, y2, x2] [v1, u1, v2, u2] = 0"
proof (rule ccontr)
  assume "intersect [y1, x1, y2, x2] [v1, u1, v2, u2] \<noteq> 0"
  then have nz: "axis_overlap x1 x2 u1 u2 * axis_overlap y1 y2 v1 v2 \<noteq> 0"
    by (simp add: intersect_boxes)
  then have "axis_overlap x1 x2 u1 u2 \<noteq> 0" "axis_overlap y1 y2 v1 v2 \<noteq> 0" by auto
  then have wf: "y1 < y2" "x1 < x2" "v1 \<le> v2" "u1 \<le> u2"
    by (auto simp: axis_overlap_def max_def min_def split: if_splits)
  have "0 < (y2 - y1) * (x2 - x1) + (v2 - v1) * (u2 - u1)
          - axis_overlap x1 x2 u1 u2 * axis_overlap y1 y2 v1 v2"
    using wf by (intro union_pos) auto
  with assms show False by (simp add: iou_boxes np_div_def)
qed

subsection \<open>Properties of the parametrisation and of the anchors\<close>

text \<open>
  Claim C1.  \<open>coords2param\<close> is to return \<open>ty = (gy1 - y1) / ha\<close>.  For the anchor
  \<open>[0, 0, 2, 2]\<close> and the ground-truth box \<open>[1, 0, 2, 1]\<close> that is 1/2, but the code computes
  \<open>ty\<close> from the x coordinates, \<open>(gx1 - x1) / ha\<close>, which is 0.
\<close>

theorem coords2param_ty_reads_x:
  "coords2param [0, 0, 2, 2] [1, 0, 2, 1] ! 1 = Some 0
     \<and> Some ((1 - 0) / (2 - 0)) \<noteq> Some (0::real)"
  by (simp add: coords2param_def np_div_def Let_def)

text \<open>What the code returns for boxes of positive width and height.\<close>

lemma coords2param_boxes:
  assumes "0 < x2 - x1" "0 < y2 - y1" "0 < gx2 - gx1" "0 < gy2 - gy1"
  shows "coords2param [y1, x1, y2, x2] [gy1, gx1, gy2, gx2] =
           [Some ((gx1 - x1) / (x2 - x1)), Some ((gx1 - x1) / (y2 - y1)),
            Some (ln ((gx2 - gx1) / (x2 - x1))), Some (ln ((gy2 - gy1) / (y2 - y1)))]"
  using assms by (simp add: coords2param_def np_div_def np_log_def Let_def divide_le_0_iff)

lemma anchor_offsets:
  "map2 (*) (replicate 4 s) [a, b, c, d] = [s * a, s * b, s * c, s * (d::real)]"
  by (simp add: eval_nat_numeral)

text \<open>
  Claim C9.  \<open>get_anchors rows cols sizes stride\<close> has shape (rows, cols, len(sizes), 4), and
  its entry at (i, j, a) is the box \<open>[cy - s/2, cx - s/2, cy + s/2, cx + s/2]\<close> with
  \<open>s = sizes[a]\<close>, \<open>cy = i * stride + 0.5\<close> and \<open>cx = j * stride + 0.5\<close>; its height and its
  width are both \<open>s\<close>.
\<close>

theorem get_anchors_correct:
  "length (get_anchors rows cols sizes stride) = rows
     \<and> (\<forall>i<rows. length (get_anchors rows cols sizes stride ! i) = cols
          \<and> (\<forall>j<cols. length (get_anchors rows cols sizes stride ! i ! j) = length sizes
               \<and> (\<forall>a<length sizes.
                     get_anchors rows cols sizes stride ! i ! j ! a
                       = [(real i * stride + 0.5) - sizes ! a / 2,
                          (real j * stride + 0.5) - sizes ! a / 2,
                          (real i * stride + 0.5) + sizes ! a / 2,
                          (real j * stride + 0.5) + sizes ! a / 2]
                   \<and> get_anchors rows cols sizes stride ! i ! j ! a ! 2
                       - get_anchors rows cols sizes stride ! i ! j ! a ! 0 = sizes ! a
                   \<and> get_anchors rows cols sizes stride ! i ! j ! a ! 3
                       - get_anchors rows cols sizes stride ! i ! j ! a ! 1 = sizes ! a)))"
  by (simp add: get_anchors_def np_indices_t_def np_tile2_def Let_def anchor_offsets)

text \<open>The anchor of size 24 in the second row and first column of a grid of stride 4.\<close>

theorem get_anchors_correct_witness:
  "get_anchors 2 2 [16, 24] 4 ! 1 ! 0 ! 1 = [- 15 / 2, - 23 / 2, 33 / 2, 25 / 2]"
  using get_anchors_correct [of 2 2 "[16, 24]" 4]
  by simp

subsection \<open>Properties of the losses\<close>

text \<open>
  Shapes, slices and sums of tensors.
\<close>

lemma shape3_row: "shape3 rows cols ch t \<Longrightarrow> r < rows \<Longrightarrow> length (t ! r) = cols"
  by (simp add: shape3_def)

lemma shape3_cell:
  "shape3 rows cols ch t \<Longrightarrow> r < rows \<Longrightarrow> c < cols \<Longrightarrow> length (t ! r ! c) = ch"
  unfolding shape3_def by (metis nth_mem)

lemma shape3_length: "shape3 rows cols ch t \<Longrightarrow> length t = rows"
  by (simp add: shape3_def)

lemma shape3I:
  assumes "length t = rows" "\<And>r. r < rows \<Longrightarrow> length (t ! r) = cols"
    and "\<And>r c. r < rows \<Longrightarrow> c < cols \<Longrightarrow> length (t ! r ! c) = ch"
  shows "shape3 rows cols ch t"
  unfolding shape3_def using assms by (metis in_set_conv_nth)

lemma sum_list_nth: "sum_list xs = (\<Sum>i<length xs. xs ! i)"
  by (simp add: sum_list_sum_nth atLeast0LessThan)

lemma K_sum_shape3:
  assumes "shape3 rows cols ch t"
  shows "K_sum t = (\<Sum>r<rows. \<Sum>c<cols. \<Sum>k<ch. t ! r ! c ! k)"
proof -
  have "K_sum t = (\<Sum>r<rows. sum_list (map sum_list (t ! r)))"
    using assms by (simp add: K_sum_def sum_list_nth shape3_def)
  also have "\<dots> = (\<Sum>r<rows. \<Sum>c<cols. sum_list (t ! r ! c))"
    using assms by (intro sum.cong refl) (simp add: sum_list_nth shape3_row)
  also have "\<dots> = (\<Sum>r<rows. \<Sum>c<cols. \<Sum>k<ch. t ! r ! c ! k)"
    using assms by (intro sum.cong refl) (simp add: sum_list_nth shape3_cell)
  finally show ?thesis .
qed

lemma length_ew3_1:
  "length ys = length xs \<Longrightarrow> length zs = length xs \<Longrightarrow> length (ew3_1 f xs ys zs) = length xs"
  by (simp add: ew3_1_def)

lemma nth_ew3_1:
  "length ys = length xs \<Longrightarrow> length zs = length xs \<Longrightarrow> i < length xs \<Longrightarrow>
     ew3_1 f xs ys zs ! i = f (xs ! i) (ys ! i) (zs ! i)"
  by (simp add: ew3_1_def)

lemma ew3_shape3:
  assumes "shape3 rows cols ch a" "shape3 rows cols ch b" "shape3 rows cols ch c"
  shows "shape3 rows cols ch (ew3 f a b c)"
    and "r < rows \<Longrightarrow> j < cols \<Longrightarrow> k < ch \<Longrightarrow>
           ew3 f a b c ! r ! j ! k = f (a ! r ! j ! k) (b ! r ! j ! k) (c ! r ! j ! k)"
proof -
  have len: "length a = rows" "length b = rows" "length c = rows"
    using assms by (simp_all add: shape3_def)
  have row: "ew3 f a b c ! r = ew3_1 (ew3_1 f) (a ! r) (b ! r) (c ! r)" if "r < rows" for r
    using that len by (simp add: ew3_def nth_ew3_1)
  have lrow: "length (a ! r) = cols" "length (b ! r) = cols" "length (c ! r) = cols"
    if "r < rows" for r
    using that assms by (simp_all add: shape3_row)
  have cell: "ew3 f a b c ! r ! j = ew3_1 f (a ! r ! j) (b ! r ! j) (c ! r ! j)"
    if "r < rows" "j < cols" for r j
    using that lrow by (simp add: row nth_ew3_1)
  have lcell: "length (a ! r ! j) = ch" "length (b ! r ! j) = ch" "length (c ! r ! j) = ch"
    if "r < rows" "j < cols" for r j
    using that assms by (simp_all add: shape3_cell)
  show "shape3 rows cols ch (ew3 f a b c)"
  proof (rule shape3I)
    show "length (ew3 f a b c) = rows" using len by (simp add: ew3_def length_ew3_1)
    show "length (ew3 f a b c ! r) = cols" if "r < rows" for r
      using that lrow by (simp add: row length_ew3_1)
    show "length (ew3 f a b c ! r ! j) = ch" if "r < rows" "j < cols" for r j
      using that lcell by (simp add: cell length_ew3_1)
  qed
  show "ew3 f a b c ! r ! j ! k = f (a ! r ! j ! k) (b ! r ! j ! k) (c ! r ! j ! k)"
    if "r < rows" "j < cols" "k < ch"
    using that lcell by (simp add: cell nth_ew3_1)
qed

lemma slice_to_shape3:
  assumes "shape3 rows cols ch t" "n \<le> ch"
  shows "shape3 rows cols n (slice_to n t)"
    and "r < rows \<Longrightarrow> j < cols \<Longrightarrow> k < n \<Longrightarrow> slice_to n t ! r ! j ! k = t ! r ! j ! k"
proof -
  show "shape3 rows cols n (slice_to n t)"
    using assms by (auto simp: shape3_def slice_to_def)
  show "slice_to n t ! r ! j ! k = t ! r ! j ! k" if "r < rows" "j < cols" "k < n"
    using that shape3_length [OF assms(1)] shape3_row [OF assms(1) that(1)]
    by (simp add: slice_to_def)
qed

lemma slice_from_shape3:
  assumes "shape3 rows cols ch t" "n \<le> ch"
  shows "shape3 rows cols (ch - n) (slice_from n t)"
    and "r < rows \<Longrightarrow> j < cols \<Longrightarrow> k < ch - n \<Longrightarrow> slice_from n t ! r ! j ! k = t ! r ! j ! (n + k)"
proof -
  show "shape3 rows cols (ch - n) (slice_from n t)"
    using assms by (auto simp: shape3_def slice_from_def)
  show "slice_from n t ! r ! j ! k = t ! r ! j ! (n + k)" if "r < rows" "j < cols" "k < ch - n"
    using that assms(2) shape3_length [OF assms(1)] shape3_row [OF assms(1) that(1)]
      shape3_cell [OF assms(1) that(1,2)]
    by (simp add: slice_from_def)
qed

lemma regr_term_smoothL1: "regr_term yt yp pt = pt * smoothL1 (yt - yp)"
  by (simp add: regr_term_def smoothL1_def Let_def power2_eq_square)

text \<open>The regression loss as a sum over positions and channels.\<close>

lemma rpn_regr_loss_sum:
  assumes "shape3 rows cols (8 * num_ancs) ytrue" and "shape3 rows cols (4 * num_ancs) ypred"
  shows "rpn_regr_loss num_ancs ytrue ypred =
           (\<Sum>r<rows. \<Sum>c<cols. \<Sum>k<4 * num_ancs.
              ytrue ! r ! c ! k * smoothL1 (ytrue ! r ! c ! (4 * num_ancs + k) - ypred ! r ! c ! k))"
proof -
  let ?n = "4 * num_ancs"
  have t: "shape3 rows cols ?n (slice_from ?n ytrue)"
    using slice_from_shape3(1) [OF assms(1), of ?n] by simp
  have p: "shape3 rows cols ?n (slice_to ?n ytrue)"
    using slice_to_shape3(1) [OF assms(1), of ?n] by simp
  have "rpn_regr_loss num_ancs ytrue ypred =
          (\<Sum>r<rows. \<Sum>c<cols. \<Sum>k<?n.
             ew3 regr_term (slice_from ?n ytrue) ypred (slice_to ?n ytrue) ! r ! c ! k)"
    unfolding rpn_regr_loss_def regr_loss_def
    by (rule K_sum_shape3) (rule ew3_shape3(1) [OF t assms(2) p])
  also have "\<dots> = (\<Sum>r<rows. \<Sum>c<cols. \<Sum>k<?n.
              ytrue ! r ! c ! k * smoothL1 (ytrue ! r ! c ! (?n + k) - ypred ! r ! c ! k))"
  proof (intro sum.cong refl)
    fix r c k assume "r \<in> {..<rows}" "c \<in> {..<cols}" "k \<in> {..<?n}"
    then have b: "r < rows" "c < cols" "k < ?n" by simp_all
    have "slice_from ?n ytrue ! r ! c ! k = ytrue ! r ! c ! (?n + k)"
      using slice_from_shape3(2) [OF assms(1), of ?n r c k] b by simp
    moreover have "slice_to ?n ytrue ! r ! c ! k = ytrue ! r ! c ! k"
      using slice_to_shape3(2) [OF assms(1), of ?n r c k] b by simp
    ultimately show "ew3 regr_term (slice_from ?n ytrue) ypred (slice_to ?n ytrue) ! r ! c ! k
        = ytrue ! r ! c ! k * smoothL1 (ytrue ! r ! c ! (?n + k) - ypred ! r ! c ! k)"
      using ew3_shape3(2) [OF t assms(2) p b, of regr_term] by (simp add: regr_term_smoothL1)
  qed
  finally show ?thesis .
qed

text \<open>
  Claim C5.  For \<open>ytrue\<close> of shape (rows, cols, 8 * num_ancs) and \<open>ypred\<close> of shape
  (rows, cols, 4 * num_ancs), \<open>rpn_regr_loss num_ancs\<close> is the sum over all positions and the
  first \<open>4 * num_ancs\<close> channels of \<open>ptrue * smoothL1 (t - t_hat)\<close>, where \<open>ptrue\<close> is the
  channel of \<open>ytrue\<close>, \<open>t\<close> the channel \<open>4 * num_ancs\<close> later in \<open>ytrue\<close>, and \<open>t_hat\<close> the
  channel of \<open>ypred\<close>.
\<close>

theorem rpn_regr_loss_correct:
  assumes "shape3 rows cols (8 * num_ancs) ytrue" and "shape3 rows cols (4 * num_ancs) ypred"
  shows "rpn_regr_loss num_ancs ytrue ypred =
           (\<Sum>r<rows. \<Sum>c<cols. \<Sum>k<4 * num_ancs.
              ytrue ! r ! c ! k * smoothL1 (ytrue ! r ! c ! (4 * num_ancs + k) - ypred ! r ! c ! k))"
  using assms by (rule rpn_regr_loss_sum)

text \<open>
  One position and one anchor: the weights 1, 0, 0, 1 select the differences 1/2 and 4.
\<close>

theorem rpn_regr_loss_correct_witness:
  "rpn_regr_loss 1 [[[1, 0, 0, 1, 1 / 2, 2, 3, 4]]] [[[0, 0, 0, 0]]] = 29 / 8"
  using rpn_regr_loss_correct [of 1 1 1 "[[[1, 0, 0, 1, 1 / 2, 2, 3, 4]]]" "[[[0, 0, 0, 0]]]"]
  by (simp add: shape3_def smoothL1_def lessThan_nat_numeral lessThan_Suc power2_eq_square)


lemma in_set_ravel:
  "x \<in> set (ravel t) \<longleftrightarrow>
     (\<exists>r<length t. \<exists>c<length (t ! r). \<exists>k<length (t ! r ! c). t ! r ! c ! k = x)"
proof
  assume "x \<in> set (ravel t)"
  then obtain row cell where "row \<in> set t" "cell \<in> set row" "x \<in> set cell"
    by (auto simp: ravel_def)
  then show "\<exists>r<length t. \<exists>c<length (t ! r). \<exists>k<length (t ! r ! c). t ! r ! c ! k = x"
    by (metis in_set_conv_nth)
next
  assume "\<exists>r<length t. \<exists>c<length (t ! r). \<exists>k<length (t ! r ! c). t ! r ! c ! k = x"
  then obtain r c k where "r < length t" "c < length (t ! r)" "k < length (t ! r ! c)"
    "t ! r ! c ! k = x" by blast
  then have "t ! r \<in> set t" "t ! r ! c \<in> set (t ! r)" "x \<in> set (t ! r ! c)"
    by (auto simp: in_set_conv_nth)
  then show "x \<in> set (ravel t)" by (auto simp: ravel_def)
qed

lemma in_set_ravel_shape3:
  assumes "shape3 rows cols ch t"
  shows "x \<in> set (ravel t) \<longleftrightarrow> (\<exists>r<rows. \<exists>c<cols. \<exists>k<ch. t ! r ! c ! k = x)"
proof
  assume "x \<in> set (ravel t)"
  then obtain r c k where b: "r < length t" "c < length (t ! r)" "k < length (t ! r ! c)"
    and x: "t ! r ! c ! k = x"
    unfolding in_set_ravel by blast
  have r: "r < rows" using b(1) shape3_length [OF assms] by simp
  have c: "c < cols" using b(2) shape3_row [OF assms r] by simp
  have k: "k < ch" using b(3) shape3_cell [OF assms r c] by simp
  from r c k x show "\<exists>r<rows. \<exists>c<cols. \<exists>k<ch. t ! r ! c ! k = x" by blast
next
  assume "\<exists>r<rows. \<exists>c<cols. \<exists>k<ch. t ! r ! c ! k = x"
  then obtain r c k where r: "r < rows" and c: "c < cols" and k: "k < ch"
    and x: "t ! r ! c ! k = x" by blast
  have "r < length t" using r shape3_length [OF assms] by simp
  moreover have "c < length (t ! r)" using c shape3_row [OF assms r] by simp
  moreover have "k < length (t ! r ! c)" using k shape3_cell [OF assms r c] by simp
  ultimately show "x \<in> set (ravel t)" unfolding in_set_ravel using x by blast
qed

lemma map3l_shape3:
  assumes "shape3 rows cols ch t"
  shows "shape3 rows cols ch (map3l f t)"
    and "r < rows \<Longrightarrow> c < cols \<Longrightarrow> k < ch \<Longrightarrow> map3l f t ! r ! c ! k = f (t ! r ! c ! k)"
proof -
  show "shape3 rows cols ch (map3l f t)"
    using assms by (auto simp: shape3_def map3l_def)
  show "map3l f t ! r ! c ! k = f (t ! r ! c ! k)" if "r < rows" "c < cols" "k < ch"
    using that shape3_length [OF assms] shape3_row [OF assms that(1)]
      shape3_cell [OF assms that(1,2)]
    by (simp add: map3l_def)
qed

lemma K_sum_opt_Some:
  assumes "shape3 rows cols ch t"
    and "\<And>r c k. r < rows \<Longrightarrow> c < cols \<Longrightarrow> k < ch \<Longrightarrow> t ! r ! c ! k = Some (v r c k)"
  shows "K_sum_opt t = Some (\<Sum>r<rows. \<Sum>c<cols. \<Sum>k<ch. v r c k)"
proof -
  have "None \<notin> set (ravel t)"
    using assms(2) by (auto simp: in_set_ravel_shape3 [OF assms(1)])
  moreover have "K_sum (map3l the t) = (\<Sum>r<rows. \<Sum>c<cols. \<Sum>k<ch. map3l the t ! r ! c ! k)"
    by (rule K_sum_shape3) (rule map3l_shape3(1) [OF assms(1)])
  moreover have "(\<Sum>r<rows. \<Sum>c<cols. \<Sum>k<ch. map3l the t ! r ! c ! k)
      = (\<Sum>r<rows. \<Sum>c<cols. \<Sum>k<ch. v r c k)"
    by (intro sum.cong refl) (simp add: map3l_shape3(2) [OF assms(1)] assms(2))
  ultimately show ?thesis by (simp add: K_sum_opt_def)
qed

lemma cls_term_Some:
  "0 < 1 / 10000 + p \<Longrightarrow> 0 < 1 / 10000 + 1 - p \<Longrightarrow>
     cls_term pt nt p = Some (- pt * ln (p + 1 / 10000) - nt * ln (1 - p + 1 / 10000))"
  by (simp add: cls_term_def K_log_def add.commute)

lemma cls_term_None:
  "cls_term pt nt p = None \<longleftrightarrow> 1 / 10000 + p \<le> 0 \<or> 1 / 10000 + 1 - p \<le> 0"
  by (simp add: cls_term_def K_log_def)

text \<open>
  Claim C6.  For \<open>ptrue\<close> of shape (rows, cols, 2 * num_ancs) and \<open>ppred\<close> of shape
  (rows, cols, num_ancs): when every argument of a logarithm is positive,
  \<open>rpn_cls_loss num_ancs\<close> is the sum over all positions and channels of
  \<open>- pos * log (ppred + 1e-4) - neg * log (1 - ppred + 1e-4)\<close>, with \<open>pos\<close> the channel of
  \<open>ptrue\<close> and \<open>neg\<close> the channel \<open>num_ancs\<close> later; every argument of a logarithm is
  positive when every entry of \<open>ppred\<close> lies between 0 and 1; and the loss is not a
  finite number exactly when some argument of a logarithm is not positive.
\<close>

theorem rpn_cls_loss_correct:
  assumes "shape3 rows cols (2 * num_ancs) ptrue" and "shape3 rows cols num_ancs ppred"
  shows "((\<forall>r<rows. \<forall>c<cols. \<forall>k<num_ancs.
             0 < 1 / 10000 + ppred ! r ! c ! k \<and> 0 < 1 / 10000 + 1 - ppred ! r ! c ! k) \<longrightarrow>
           rpn_cls_loss num_ancs ptrue ppred =
             Some (\<Sum>r<rows. \<Sum>c<cols. \<Sum>k<num_ancs.
                     - ptrue ! r ! c ! k * ln (ppred ! r ! c ! k + 1 / 10000)
                     - ptrue ! r ! c ! (num_ancs + k) * ln (1 - ppred ! r ! c ! k + 1 / 10000)))
       \<and> ((\<forall>r<rows. \<forall>c<cols. \<forall>k<num_ancs. 0 \<le> ppred ! r ! c ! k \<and> ppred ! r ! c ! k \<le> 1) \<longrightarrow>
            (\<forall>r<rows. \<forall>c<cols. \<forall>k<num_ancs.
               0 < 1 / 10000 + ppred ! r ! c ! k \<and> 0 < 1 / 10000 + 1 - ppred ! r ! c ! k))
       \<and> (rpn_cls_loss num_ancs ptrue ppred = None \<longleftrightarrow>
            (\<exists>r<rows. \<exists>c<cols. \<exists>k<num_ancs.
               1 / 10000 + ppred ! r ! c ! k \<le> 0 \<or> 1 / 10000 + 1 - ppred ! r ! c ! k \<le> 0))"
proof -
  let ?n = num_ancs
  have p: "shape3 rows cols ?n (slice_to ?n ptrue)"
    using slice_to_shape3(1) [OF assms(1), of ?n] by simp
  have n: "shape3 rows cols ?n (slice_from ?n ptrue)"
    using slice_from_shape3(1) [OF assms(1), of ?n] by simp
  let ?t = "ew3 cls_term (slice_to ?n ptrue) (slice_from ?n ptrue) ppred"
  have sh: "shape3 rows cols ?n ?t" by (rule ew3_shape3(1) [OF p n assms(2)])
  have el: "?t ! r ! c ! k
      = cls_term (ptrue ! r ! c ! k) (ptrue ! r ! c ! (?n + k)) (ppred ! r ! c ! k)"
    if b: "r < rows" "c < cols" "k < ?n" for r c k
  proof -
    have "slice_to ?n ptrue ! r ! c ! k = ptrue ! r ! c ! k"
      using slice_to_shape3(2) [OF assms(1), of ?n r c k] b by simp
    moreover have "slice_from ?n ptrue ! r ! c ! k = ptrue ! r ! c ! (?n + k)"
      using slice_from_shape3(2) [OF assms(1), of ?n r c k] b by simp
    ultimately show ?thesis
      using ew3_shape3(2) [OF p n assms(2) b, of cls_term] by simp
  qed
  have c1: "rpn_cls_loss ?n ptrue ppred =
             Some (\<Sum>r<rows. \<Sum>c<cols. \<Sum>k<?n.
                     - ptrue ! r ! c ! k * ln (ppred ! r ! c ! k + 1 / 10000)
                     - ptrue ! r ! c ! (?n + k) * ln (1 - ppred ! r ! c ! k + 1 / 10000))"
    if h: "\<forall>r<rows. \<forall>c<cols. \<forall>k<?n.
             0 < 1 / 10000 + ppred ! r ! c ! k \<and> 0 < 1 / 10000 + 1 - ppred ! r ! c ! k"
  proof -
    have "?t ! r ! c ! k
        = Some (- ptrue ! r ! c ! k * ln (ppred ! r ! c ! k + 1 / 10000)
                - ptrue ! r ! c ! (?n + k) * ln (1 - ppred ! r ! c ! k + 1 / 10000))"
      if "r < rows" "c < cols" "k < ?n" for r c k
      using that h by (simp add: el cls_term_Some)
    from K_sum_opt_Some [OF sh this] show ?thesis
      by (simp add: rpn_cls_loss_def cls_loss_def)
  qed
  have c2: "\<forall>r<rows. \<forall>c<cols. \<forall>k<?n.
               0 < 1 / 10000 + ppred ! r ! c ! k \<and> 0 < 1 / 10000 + 1 - ppred ! r ! c ! k"
    if "\<forall>r<rows. \<forall>c<cols. \<forall>k<?n. 0 \<le> ppred ! r ! c ! k \<and> ppred ! r ! c ! k \<le> 1"
  proof (intro allI impI)
    fix r c k assume "r < rows" "c < cols" "k < ?n"
    with that have "0 \<le> ppred ! r ! c ! k \<and> ppred ! r ! c ! k \<le> 1" by blast
    then show "0 < 1 / 10000 + ppred ! r ! c ! k \<and> 0 < 1 / 10000 + 1 - ppred ! r ! c ! k"
      by simp
  qed
  have "rpn_cls_loss ?n ptrue ppred = None \<longleftrightarrow> None \<in> set (ravel ?t)"
    by (simp add: rpn_cls_loss_def cls_loss_def K_sum_opt_def)
  also have "\<dots> \<longleftrightarrow> (\<exists>r<rows. \<exists>c<cols. \<exists>k<?n. ?t ! r ! c ! k = None)"
    by (rule in_set_ravel_shape3 [OF sh])
  also have "\<dots> \<longleftrightarrow> (\<exists>r<rows. \<exists>c<cols. \<exists>k<?n.
               1 / 10000 + ppred ! r ! c ! k \<le> 0 \<or> 1 / 10000 + 1 - ppred ! r ! c ! k \<le> 0)"
  proof -
    have pt: "(?t ! r ! c ! k = None) =
        (1 / 10000 + ppred ! r ! c ! k \<le> 0 \<or> 1 / 10000 + 1 - ppred ! r ! c ! k \<le> 0)"
      if "r < rows" "c < cols" "k < ?n" for r c k
      by (simp only: el [OF that] cls_term_None)
    show ?thesis
      apply (intro ex_cong1 conj_cong refl)
      apply (rule pt; assumption)
      done
  qed
  finally have c3: "rpn_cls_loss ?n ptrue ppred = None \<longleftrightarrow>
            (\<exists>r<rows. \<exists>c<cols. \<exists>k<?n.
               1 / 10000 + ppred ! r ! c ! k \<le> 0 \<or> 1 / 10000 + 1 - ppred ! r ! c ! k \<le> 0)" .
  show ?thesis
  proof (intro conjI)
    show "(\<forall>r<rows. \<forall>c<cols. \<forall>k<num_ancs.
             0 < 1 / 10000 + ppred ! r ! c ! k \<and> 0 < 1 / 10000 + 1 - ppred ! r ! c ! k) \<longrightarrow>
           rpn_cls_loss num_ancs ptrue ppred =
             Some (\<Sum>r<rows. \<Sum>c<cols. \<Sum>k<num_ancs.
                     - ptrue ! r ! c ! k * ln (ppred ! r ! c ! k + 1 / 10000)
                     - ptrue ! r ! c ! (num_ancs + k) * ln (1 - ppred ! r ! c ! k + 1 / 10000))"
      by (rule impI) (erule c1)
    show "(\<forall>r<rows. \<forall>c<cols. \<forall>k<num_ancs. 0 \<le> ppred ! r ! c ! k \<and> ppred ! r ! c ! k \<le> 1) \<longrightarrow>
            (\<forall>r<rows. \<forall>c<cols. \<forall>k<num_ancs.
               0 < 1 / 10000 + ppred ! r ! c ! k \<and> 0 < 1 / 10000 + 1 - ppred ! r ! c ! k)"
      by (rule impI) (erule c2)
    show "rpn_cls_loss num_ancs ptrue ppred = None \<longleftrightarrow>
            (\<exists>r<rows. \<exists>c<cols. \<exists>k<num_ancs.
               1 / 10000 + ppred ! r ! c ! k \<le> 0 \<or> 1 / 10000 + 1 - ppred ! r ! c ! k \<le> 0)"
      by (rule c3)
  qed
qed

text \<open>
  One position, one anchor, marked positive and predicted with probability 1.
\<close>

theorem rpn_cls_loss_correct_witness:
  "rpn_cls_loss 1 [[[1, 0]]] [[[1]]] = Some (- ln (10001 / 10000))"
proof -
  have s1: "shape3 1 1 (2 * 1) [[[1, 0::real]]]" by (simp add: shape3_def)
  have s2: "shape3 1 1 1 [[[1::real]]]" by (simp add: shape3_def)
  have h: "\<forall>r<1::nat. \<forall>c<1::nat. \<forall>k<1::nat.
             0 < 1 / 10000 + [[[1::real]]] ! r ! c ! k \<and> 0 < 1 / 10000 + 1 - [[[1::real]]] ! r ! c ! k"
    by simp
  have "rpn_cls_loss 1 [[[1, 0]]] [[[1]]] =
          Some (\<Sum>r<1::nat. \<Sum>c<1::nat. \<Sum>k<1::nat.
                  - [[[1, 0::real]]] ! r ! c ! k * ln ([[[1::real]]] ! r ! c ! k + 1 / 10000)
                  - [[[1, 0::real]]] ! r ! c ! (1 + k) * ln (1 - [[[1::real]]] ! r ! c ! k + 1 / 10000))"
    using rpn_cls_loss_correct [OF s1 s2] h by blast
  then show ?thesis by simp
qed

subsection \<open>Properties of the sampling\<close>

text \<open>
  Clearing entries of a mask, and counting what is left.
\<close>

lemma length_clear_at: "length (clear_at m idx) = length m"
  unfolding clear_at_def by (induction idx arbitrary: m) simp_all

lemma nth_clear_at:
  "i < length m \<Longrightarrow> clear_at m idx ! i \<longleftrightarrow> m ! i \<and> i \<notin> set idx"
  unfolding clear_at_def
proof (induction idx arbitrary: m)
  case Nil
  then show ?case by simp
next
  case (Cons j idx)
  have "fold (\<lambda>i acc. acc[i := False]) (j # idx) m ! i
      = fold (\<lambda>i acc. acc[i := False]) idx (m[j := False]) ! i" by simp
  also have "\<dots> \<longleftrightarrow> (m[j := False]) ! i \<and> i \<notin> set idx"
    using Cons.prems by (intro Cons.IH) simp
  also have "\<dots> \<longleftrightarrow> m ! i \<and> i \<notin> set (j # idx)"
    using Cons.prems by (cases "i = j") simp_all
  finally show ?case .
qed

lemma count_true_card: "count_true m = card {i. i < length m \<and> m ! i}"
  by (simp add: count_true_def length_filter_conv_card)

lemma np_where_props:
  "distinct (np_where m)" "set (np_where m) = {i. i < length m \<and> m ! i}"
  "length (np_where m) = count_true m"
proof -
  show d: "distinct (np_where m)" by (simp add: np_where_def)
  show s: "set (np_where m) = {i. i < length m \<and> m ! i}" by (auto simp: np_where_def)
  show "length (np_where m) = count_true m"
    using distinct_card [OF d] s by (simp add: count_true_card)
qed

lemma chosen_props:
  assumes "choice_ok (count_true m) k c"
  shows "set (map (\<lambda>j. np_where m ! j) c) \<subseteq> {i. i < length m \<and> m ! i}"
    and "card (set (map (\<lambda>j. np_where m ! j) c)) = k"
proof -
  from assms have len: "length c = k" and dc: "distinct c"
    and bd: "\<And>x. x \<in> set c \<Longrightarrow> x < length (np_where m)"
    by (simp_all add: choice_ok_def np_where_props(3))
  have "np_where m ! x \<in> set (np_where m)" if "x \<in> set c" for x
    using bd [OF that] by simp
  then show "set (map (\<lambda>j. np_where m ! j) c) \<subseteq> {i. i < length m \<and> m ! i}"
    unfolding np_where_props(2) [symmetric] by auto
  have "inj_on (\<lambda>j. np_where m ! j) (set c)"
  proof (rule inj_onI)
    fix x y assume "x \<in> set c" "y \<in> set c" "np_where m ! x = np_where m ! y"
    then show "x = y"
      using bd np_where_props(1) [of m] by (simp add: nth_eq_iff_index_eq)
  qed
  then have "distinct (map (\<lambda>j. np_where m ! j) c)"
    using dc by (simp add: distinct_map)
  then show "card (set (map (\<lambda>j. np_where m ! j) c)) = k"
    using len distinct_card by fastforce
qed

lemma count_true_clear_at:
  assumes "choice_ok (count_true m) k c"
  shows "count_true (clear_at m (map (\<lambda>j. np_where m ! j) c)) = count_true m - k"
proof -
  let ?S = "set (map (\<lambda>j. np_where m ! j) c)"
  let ?T = "{i. i < length m \<and> m ! i}"
  have "{i. i < length (clear_at m (map (\<lambda>j. np_where m ! j) c))
            \<and> clear_at m (map (\<lambda>j. np_where m ! j) c) ! i} = ?T - ?S"
    by (auto simp: length_clear_at nth_clear_at)
  then have "count_true (clear_at m (map (\<lambda>j. np_where m ! j) c)) = card (?T - ?S)"
    by (simp add: count_true_card)
  also have "\<dots> = card ?T - card ?S"
    using chosen_props(1) [OF assms] by (intro card_Diff_subset) auto
  also have "\<dots> = count_true m - k"
    using chosen_props(2) [OF assms] by (simp add: count_true_card)
  finally show ?thesis .
qed

lemma clear_at_subset:
  "i < length m \<Longrightarrow> clear_at m idx ! i \<Longrightarrow> m ! i"
  by (simp add: nth_clear_at)

text \<open>
  Claim C4.  For masks \<open>pos\<close> and \<open>neg\<close>, a number \<open>num\<close> and every outcome of the random
  choices, the masks that \<open>filter_boxes pos neg num\<close> returns have at most \<open>num / 2\<close> true
  entries in \<open>pos\<close> and at most \<open>num\<close> true entries in \<open>pos\<close> and \<open>neg\<close> together; they have
  the shapes of the arguments; an entry that is true in a returned mask was true in the
  argument; and \<open>pos\<close> is returned unchanged unless its count exceeded \<open>num / 2\<close>.
\<close>

theorem filter_boxes_correct:
  assumes "choices_ok pos neg num cp cn"
  shows "2 * count_true (fst (filter_boxes pos neg num cp cn)) \<le> num
       \<and> count_true (fst (filter_boxes pos neg num cp cn))
           + count_true (snd (filter_boxes pos neg num cp cn)) \<le> num
       \<and> length (fst (filter_boxes pos neg num cp cn)) = length pos
       \<and> length (snd (filter_boxes pos neg num cp cn)) = length neg
       \<and> (\<forall>i<length pos. fst (filter_boxes pos neg num cp cn) ! i \<longrightarrow> pos ! i)
       \<and> (\<forall>i<length neg. snd (filter_boxes pos neg num cp cn) ! i \<longrightarrow> neg ! i)
       \<and> (\<not> real (count_true pos) > real num / 2 \<longrightarrow> fst (filter_boxes pos neg num cp cn) = pos)"
proof -
  let ?p = "count_true pos" and ?n = "count_true neg"
  let ?big = "real ?p > real num / 2"
  let ?p' = "if ?big then num div 2 else ?p"
  let ?pos' = "if ?big then clear_at pos (map (\<lambda>k. np_where pos ! k) cp) else pos"
  let ?neg' = "if ?n + ?p' > num then clear_at neg (map (\<lambda>k. np_where neg ! k) cn) else neg"
  have fb: "filter_boxes pos neg num cp cn = (?pos', ?neg')"
    by (simp add: filter_boxes_def Let_def)
  have okp: "choice_ok ?p (?p - num div 2) cp" if ?big
    using assms that by (simp add: choices_ok_def Let_def)
  have okn: "choice_ok ?n (?n + ?p' - num) cn" if "?n + ?p' > num"
    using assms that by (simp add: choices_ok_def Let_def)
  have big_iff: "?big \<longleftrightarrow> num < 2 * ?p" by (simp add: field_simps) linarith
  have cp': "count_true ?pos' = ?p'"
  proof (cases ?big)
    case True
    then have "num div 2 \<le> ?p" using big_iff by linarith
    then show ?thesis using True count_true_clear_at [OF okp [OF True]] by simp
  next
    case False
    then show ?thesis by simp
  qed
  have p'le: "2 * ?p' \<le> num" using big_iff by (cases ?big) auto
  have cn': "count_true ?pos' + count_true ?neg' \<le> num"
  proof (cases "?n + ?p' > num")
    case True
    have "count_true ?neg' = ?n - (?n + ?p' - num)"
      using True count_true_clear_at [OF okn [OF True]] by simp
    then show ?thesis using True p'le cp' by linarith
  next
    case False
    then show ?thesis using cp' by simp
  qed
  have lp: "length ?pos' = length pos" by (simp add: length_clear_at)
  have ln: "length ?neg' = length neg" by (simp add: length_clear_at)
  have sp: "\<forall>i<length pos. ?pos' ! i \<longrightarrow> pos ! i" by (simp add: nth_clear_at)
  have sn: "\<forall>i<length neg. ?neg' ! i \<longrightarrow> neg ! i" by (simp add: nth_clear_at)
  have keep: "\<not> ?big \<longrightarrow> ?pos' = pos" by simp
  show ?thesis
    unfolding fb fst_conv snd_conv
    using cp' p'le cn' lp ln sp sn keep by (simp only: simp_thms)
qed

text \<open>
  Four positives and three negatives sampled down to four boxes.
\<close>

theorem filter_boxes_correct_witness:
  "filter_boxes [True, True, False, True, True] [True, False, True, False, True] 4 [3, 0] [2]
     = ([False, True, False, True, False], [True, False, True, False, False])"
proof -
  have "choices_ok [True, True, False, True, True] [True, False, True, False, True] 4 [3, 0] [2]"
    by (simp add: choices_ok_def choice_ok_def count_true_def Let_def)
  from filter_boxes_correct [OF this] show ?thesis
    by (simp add: filter_boxes_def count_true_def clear_at_def np_where_def Let_def upt_rec)
qed

subsection \<open>Properties of the assignment\<close>

text \<open>
  Maxima and the first position of a maximum, for IoUs that are numbers.
\<close>

lemma iou_Some_value: "iou b1 b2 \<noteq> None \<Longrightarrow> iou b1 b2 = Some (iou_value b1 b2)"
  by (simp add: iou_def iou_value_def np_div_def Let_def split: if_splits)

lemma fold_np_max2_Some:
  "fold np_max2 (map Some xs) (Some x) = Some (fold max xs x)"
  by (induction xs arbitrary: x) (simp_all add: np_max2_def)

lemma np_max_Some:
  assumes "xs \<noteq> []"
  shows "np_max (map Some xs) = Some (Max (set xs))"
proof -
  from assms obtain y ys where xs: "xs = y # ys" by (cases xs) auto
  have "Max (set (y # ys)) = fold max ys y" by (rule Max.set_eq_fold)
  then show ?thesis unfolding xs by (simp add: fold_np_max2_Some)
qed

lemma first_index_props:
  assumes "\<exists>x\<in>set xs. P x"
  shows "first_index P xs < length xs \<and> P (xs ! first_index P xs)
           \<and> (\<forall>j<first_index P xs. \<not> P (xs ! j))"
  using assms
proof (induction xs)
  case Nil
  then show ?case by simp
next
  case (Cons x xs)
  show ?case
  proof (cases "P x")
    case True
    then show ?thesis by simp
  next
    case False
    with Cons.prems have "\<exists>x\<in>set xs. P x" by simp
    from Cons.IH [OF this] False show ?thesis
      by (auto simp: nth_Cons split: nat.splits)
  qed
qed

lemma np_argmax_Some:
  assumes "xs \<noteq> []"
  shows "np_argmax (map Some xs) < length xs
       \<and> xs ! np_argmax (map Some xs) = Max (set xs)
       \<and> (\<forall>j<np_argmax (map Some xs). xs ! j < Max (set xs))"
proof -
  let ?P = "\<lambda>x. x = Some (Max (set xs))"
  let ?k = "first_index ?P (map Some xs)"
  have k: "np_argmax (map Some xs) = ?k"
    using assms by (auto simp: np_argmax_def np_max_Some)
  have "Max (set xs) \<in> set xs" using assms by (intro Max_in) auto
  then have "\<exists>x\<in>set (map Some xs). ?P x" by auto
  note fp = first_index_props [OF this]
  have 1: "?k < length xs" using fp by simp
  have 2: "(map Some xs) ! ?k = Some (Max (set xs))" using fp by blast
  have 3: "(map Some xs) ! j \<noteq> Some (Max (set xs))" if "j < ?k" for j
    using fp that by blast
  from 1 2 have k2: "xs ! ?k = Max (set xs)" by simp
  have k3: "xs ! j < Max (set xs)" if "j < ?k" for j
  proof -
    have j: "j < length xs" using that 1 by simp
    then have "xs ! j \<noteq> Max (set xs)" using 3 [OF that] by simp
    moreover have "xs ! j \<le> Max (set xs)" using j by (intro Max_ge) auto
    ultimately show ?thesis by simp
  qed
  from 1 k2 k3 show ?thesis unfolding k by blast
qed

lemma ravel_map3l: "ravel (map3l f t) = map f (ravel t)"
  by (simp add: ravel_def map3l_def map_concat)

lemma map2_map_right: "map2 f xs (map g xs) = map (\<lambda>x. f x (g x)) xs"
  by (induction xs) simp_all

lemma map2_3_map3l:
  "map2 (map2 (map2 f)) t (map3l g t) = map3l (\<lambda>x. f x (g x)) t"
proof -
  have 1: "map2 (map2 f) row (map (map g) row) = map (map (\<lambda>x. f x (g x))) row" for row
    by (induction row) (simp_all add: map2_map_right)
  show ?thesis unfolding map3l_def
    by (induction t) (simp_all add: 1)
qed

lemma map3l_map3l: "map3l f (map3l g t) = map3l (\<lambda>x. f (g x)) t"
  by (simp add: map3l_def comp_def)

lemma ravel_empty_shape3:
  assumes "shape3 rows cols ch t"
  shows "ravel t = [] \<longleftrightarrow> rows * cols * ch = 0"
proof -
  have "ravel t \<noteq> [] \<longleftrightarrow> (\<exists>x. x \<in> set (ravel t))" by (cases "ravel t") auto
  also have "\<dots> \<longleftrightarrow> (\<exists>r<rows. \<exists>c<cols. \<exists>k<ch. True)"
    unfolding in_set_ravel_shape3 [OF assms] by blast
  also have "\<dots> \<longleftrightarrow> 0 < rows \<and> 0 < cols \<and> 0 < ch" by auto
  finally show ?thesis by auto
qed

lemma anchors_vs_gt_unfold:
  assumes "gtbs \<noteq> []" "ravel ancs \<noteq> []"
  shows "anchors_vs_gt ancs gtbs lo hi =
     Inr (map3l (marks_pos (ravel ancs) gtbs hi) ancs,
          map3l (\<lambda>anc. np_le (np_max (map (\<lambda>gtb. iou anc gtb) gtbs)) lo) ancs,
          map3l (\<lambda>anc. coords2param anc (gtbs ! np_argmax (map (\<lambda>gtb. iou anc gtb) gtbs))) ancs)"
proof -
  let ?ious = "map3l (\<lambda>anc. map (\<lambda>gtb. iou anc gtb) gtbs) ancs"
  have flat: "ravel ?ious = map (\<lambda>anc. map (\<lambda>gtb. iou anc gtb) gtbs) (ravel ancs)"
    by (rule ravel_map3l)
  have ne: "ravel ?ious \<noteq> []" using assms(2) by (simp add: flat)
  have best: "np_max (map (\<lambda>row. row ! g) (ravel ?ious))
      = np_max (map (\<lambda>a. iou a (gtbs ! g)) (ravel ancs))" if "g < length gtbs" for g
    using that by (simp add: flat comp_def)
  have pos: "(\<lambda>row. np_ge (np_max row) hi \<or>
                 list_ex (\<lambda>g. np_eq (row ! g)
                      (map (\<lambda>g. np_max (map (\<lambda>row. row ! g) (ravel ?ious))) [0..<length gtbs] ! g)
                    \<and> np_gt (map (\<lambda>g. np_max (map (\<lambda>row. row ! g) (ravel ?ious))) [0..<length gtbs] ! g) 0)
                   [0..<length gtbs]) (map (\<lambda>gtb. iou anc gtb) gtbs)
      = marks_pos (ravel ancs) gtbs hi anc" for anc
    unfolding marks_pos_def list_ex_iff
    by (auto simp: best)
  show ?thesis
    using assms(1) ne
    unfolding anchors_vs_gt_def Let_def
    by (simp add: map3l_map3l map2_3_map3l pos)
qed


lemma ex_nth_iff: "(\<exists>k<length xs. P (xs ! k)) \<longleftrightarrow> (\<exists>x\<in>set xs. P x)"
  by (metis in_set_conv_nth)

lemma row_max_value:
  assumes "gtbs \<noteq> []" "\<forall>g\<in>set gtbs. iou anc g \<noteq> None"
  shows "map (\<lambda>gtb. iou anc gtb) gtbs = map Some (map (iou_value anc) gtbs)"
    and "np_max (map (\<lambda>gtb. iou anc gtb) gtbs) = Some (Max (iou_value anc ` set gtbs))"
proof -
  show 1: "map (\<lambda>gtb. iou anc gtb) gtbs = map Some (map (iou_value anc) gtbs)"
    using assms(2) by (simp add: iou_Some_value)
  have "np_max (map Some (map (iou_value anc) gtbs)) = Some (Max (set (map (iou_value anc) gtbs)))"
    using assms(1) by (intro np_max_Some) simp
  then show "np_max (map (\<lambda>gtb. iou anc gtb) gtbs) = Some (Max (iou_value anc ` set gtbs))"
    unfolding 1 by simp
qed

lemma column_max_value:
  assumes "all_ancs \<noteq> []" "\<forall>a\<in>set all_ancs. iou a g \<noteq> None"
  shows "np_max (map (\<lambda>a. iou a g) all_ancs) = Some (Max ((\<lambda>a. iou_value a g) ` set all_ancs))"
proof -
  have 1: "map (\<lambda>a. iou a g) all_ancs = map Some (map (\<lambda>a. iou_value a g) all_ancs)"
    using assms(2) by (simp add: iou_Some_value)
  have "np_max (map Some (map (\<lambda>a. iou_value a g) all_ancs))
      = Some (Max (set (map (\<lambda>a. iou_value a g) all_ancs)))"
    using assms(1) by (intro np_max_Some) simp
  then show ?thesis unfolding 1 by simp
qed

lemma marks_pos_value:
  assumes "gtbs \<noteq> []" "all_ancs \<noteq> []" "anc \<in> set all_ancs"
    and "\<forall>a\<in>set all_ancs. \<forall>g\<in>set gtbs. iou a g \<noteq> None"
  shows "marks_pos all_ancs gtbs hi anc \<longleftrightarrow>
           Max (iou_value anc ` set gtbs) \<ge> hi \<or>
           (\<exists>g\<in>set gtbs. iou_value anc g = Max ((\<lambda>a. iou_value a g) ` set all_ancs)
                         \<and> 0 < Max ((\<lambda>a. iou_value a g) ` set all_ancs))"
proof -
  have row: "np_max (map (\<lambda>gtb. iou anc gtb) gtbs) = Some (Max (iou_value anc ` set gtbs))"
    using assms by (intro row_max_value(2)) auto
  have col: "np_max (map (\<lambda>a. iou a g) all_ancs) = Some (Max ((\<lambda>a. iou_value a g) ` set all_ancs))"
    if "g \<in> set gtbs" for g
    using assms that by (intro column_max_value) auto
  have one: "iou anc g = Some (iou_value anc g)" if "g \<in> set gtbs" for g
    using assms that by (intro iou_Some_value) auto
  have "list_ex (\<lambda>g. np_eq (iou anc (gtbs ! g)) (np_max (map (\<lambda>a. iou a (gtbs ! g)) all_ancs))
                 \<and> np_gt (np_max (map (\<lambda>a. iou a (gtbs ! g)) all_ancs)) 0) [0..<length gtbs]
      \<longleftrightarrow> (\<exists>k<length gtbs. iou_value anc (gtbs ! k) = Max ((\<lambda>a. iou_value a (gtbs ! k)) ` set all_ancs)
                         \<and> 0 < Max ((\<lambda>a. iou_value a (gtbs ! k)) ` set all_ancs))"
    unfolding list_ex_iff
    by (auto simp: col one np_eq_def np_gt_def)
  also have "\<dots> \<longleftrightarrow> (\<exists>g\<in>set gtbs. iou_value anc g = Max ((\<lambda>a. iou_value a g) ` set all_ancs)
                         \<and> 0 < Max ((\<lambda>a. iou_value a g) ` set all_ancs))"
    by (rule ex_nth_iff)
  finally show ?thesis
    unfolding marks_pos_def by (simp add: row np_ge_def)
qed

lemma anchors_vs_gt_no_anchor:
  assumes "gtbs \<noteq> []" "ravel ancs = []"
  shows "anchors_vs_gt ancs gtbs lo hi = Inl ValueError"
  using assms by (simp add: anchors_vs_gt_def Let_def ravel_map3l)

lemma argmax_value:
  assumes "gtbs \<noteq> []" "\<forall>g\<in>set gtbs. iou anc g \<noteq> None"
  shows "\<exists>k<length gtbs.
           np_argmax (map (\<lambda>gtb. iou anc gtb) gtbs) = k
         \<and> iou_value anc (gtbs ! k) = Max (iou_value anc ` set gtbs)
         \<and> (\<forall>j<k. iou_value anc (gtbs ! j) < iou_value anc (gtbs ! k))"
proof -
  let ?xs = "map (iou_value anc) gtbs"
  let ?k = "np_argmax (map Some ?xs)"
  have ne: "?xs \<noteq> []" using assms(1) by simp
  note am = np_argmax_Some [OF ne]
  have k: "?k < length gtbs" using am by simp
  have v: "?xs ! ?k = Max (set ?xs)" using am by blast
  have lt: "?xs ! j < Max (set ?xs)" if "j < ?k" for j using am that by blast
  have v': "iou_value anc (gtbs ! ?k) = Max (iou_value anc ` set gtbs)"
    using v k by simp
  have lt': "iou_value anc (gtbs ! j) < iou_value anc (gtbs ! ?k)" if "j < ?k" for j
  proof -
    have "j < length gtbs" using that k by simp
    then show ?thesis using lt [OF that] v k by simp
  qed
  have "np_argmax (map (\<lambda>gtb. iou anc gtb) gtbs) = ?k"
    by (simp only: row_max_value(1) [OF assms])
  with k v' lt' show ?thesis by blast
qed

text \<open>
  Claim C2.  Let \<open>ancs\<close> have shape (rows, cols, anc_num, 4), let \<open>gtbs\<close> be non-empty, and let
  every IoU of an anchor and a ground-truth box be a number.  If the array has no anchor,
  numpy raises ValueError.  Otherwise \<open>anchors_vs_gt ancs gtbs lo hi\<close> returns three arrays of
  shape (rows, cols, anc_num) such that, at every anchor: \<open>box_pos\<close> is true if and only if
  the maximum IoU of the anchor over the ground-truth boxes is at least \<open>hi\<close>, or for some
  ground-truth box \<open>g\<close> the IoU of the anchor with \<open>g\<close> is the maximum that any anchor attains
  with \<open>g\<close> and that maximum is positive; \<open>box_neg\<close> is true if and only if the maximum IoU of
  the anchor is at most \<open>lo\<close>; and the third array holds \<open>coords2param\<close> of the anchor and the
  first ground-truth box with which its IoU is maximal.
\<close>

theorem anchors_vs_gt_correct:
  assumes sh: "shape3 rows cols anc_num ancs" and ne: "gtbs \<noteq> []"
    and df: "\<forall>anc\<in>set (ravel ancs). \<forall>g\<in>set gtbs. iou anc g \<noteq> None"
  shows "(rows * cols * anc_num = 0 \<and> anchors_vs_gt ancs gtbs lo hi = Inl ValueError) \<or>
     (0 < rows * cols * anc_num \<and>
      (\<exists>pos neg par. anchors_vs_gt ancs gtbs lo hi = Inr (pos, neg, par)
        \<and> shape3 rows cols anc_num pos \<and> shape3 rows cols anc_num neg
        \<and> shape3 rows cols anc_num par
        \<and> (\<forall>r<rows. \<forall>c<cols. \<forall>a<anc_num.
             (pos ! r ! c ! a \<longleftrightarrow>
                hi \<le> Max (iou_value (ancs ! r ! c ! a) ` set gtbs) \<or>
                (\<exists>g\<in>set gtbs.
                   iou_value (ancs ! r ! c ! a) g = Max ((\<lambda>b. iou_value b g) ` set (ravel ancs))
                   \<and> 0 < Max ((\<lambda>b. iou_value b g) ` set (ravel ancs))))
           \<and> (neg ! r ! c ! a \<longleftrightarrow> Max (iou_value (ancs ! r ! c ! a) ` set gtbs) \<le> lo)
           \<and> (\<exists>k<length gtbs.
                 par ! r ! c ! a = coords2param (ancs ! r ! c ! a) (gtbs ! k)
                 \<and> iou_value (ancs ! r ! c ! a) (gtbs ! k)
                     = Max (iou_value (ancs ! r ! c ! a) ` set gtbs)
                 \<and> (\<forall>j<k. iou_value (ancs ! r ! c ! a) (gtbs ! j)
                             < iou_value (ancs ! r ! c ! a) (gtbs ! k))))))"
proof (cases "ravel ancs = []")
  case True
  then have "rows * cols * anc_num = 0" using ravel_empty_shape3 [OF sh] by simp
  moreover have "anchors_vs_gt ancs gtbs lo hi = Inl ValueError"
    using ne True by (rule anchors_vs_gt_no_anchor)
  ultimately show ?thesis by blast
next
  case False
  then have nz: "0 < rows * cols * anc_num" using ravel_empty_shape3 [OF sh] by simp
  let ?pos = "map3l (marks_pos (ravel ancs) gtbs hi) ancs"
  let ?neg = "map3l (\<lambda>anc. np_le (np_max (map (\<lambda>gtb. iou anc gtb) gtbs)) lo) ancs"
  let ?par = "map3l (\<lambda>anc. coords2param anc
                 (gtbs ! np_argmax (map (\<lambda>gtb. iou anc gtb) gtbs))) ancs"
  have res: "anchors_vs_gt ancs gtbs lo hi = Inr (?pos, ?neg, ?par)"
    using ne False by (rule anchors_vs_gt_unfold)
  have shp: "shape3 rows cols anc_num ?pos" by (rule map3l_shape3(1) [OF sh])
  have shn: "shape3 rows cols anc_num ?neg" by (rule map3l_shape3(1) [OF sh])
  have shr: "shape3 rows cols anc_num ?par" by (rule map3l_shape3(1) [OF sh])
  have el: "(?pos ! r ! c ! a \<longleftrightarrow>
                hi \<le> Max (iou_value (ancs ! r ! c ! a) ` set gtbs) \<or>
                (\<exists>g\<in>set gtbs.
                   iou_value (ancs ! r ! c ! a) g = Max ((\<lambda>b. iou_value b g) ` set (ravel ancs))
                   \<and> 0 < Max ((\<lambda>b. iou_value b g) ` set (ravel ancs))))
           \<and> (?neg ! r ! c ! a \<longleftrightarrow> Max (iou_value (ancs ! r ! c ! a) ` set gtbs) \<le> lo)
           \<and> (\<exists>k<length gtbs.
                 ?par ! r ! c ! a = coords2param (ancs ! r ! c ! a) (gtbs ! k)
                 \<and> iou_value (ancs ! r ! c ! a) (gtbs ! k)
                     = Max (iou_value (ancs ! r ! c ! a) ` set gtbs)
                 \<and> (\<forall>j<k. iou_value (ancs ! r ! c ! a) (gtbs ! j)
                             < iou_value (ancs ! r ! c ! a) (gtbs ! k)))"
    if b: "r < rows" "c < cols" "a < anc_num" for r c a
  proof -
    let ?anc = "ancs ! r ! c ! a"
    have mem: "?anc \<in> set (ravel ancs)"
      unfolding in_set_ravel_shape3 [OF sh] using b by blast
    have dfa: "\<forall>g\<in>set gtbs. iou ?anc g \<noteq> None" using df mem by blast
    have p: "?pos ! r ! c ! a = marks_pos (ravel ancs) gtbs hi ?anc"
      by (rule map3l_shape3(2) [OF sh b])
    have n: "?neg ! r ! c ! a = np_le (np_max (map (\<lambda>gtb. iou ?anc gtb) gtbs)) lo"
      by (rule map3l_shape3(2) [OF sh b])
    have q: "?par ! r ! c ! a
        = coords2param ?anc (gtbs ! np_argmax (map (\<lambda>gtb. iou ?anc gtb) gtbs))"
      by (rule map3l_shape3(2) [OF sh b])
    have 1: "?pos ! r ! c ! a \<longleftrightarrow>
                hi \<le> Max (iou_value ?anc ` set gtbs) \<or>
                (\<exists>g\<in>set gtbs.
                   iou_value ?anc g = Max ((\<lambda>b. iou_value b g) ` set (ravel ancs))
                   \<and> 0 < Max ((\<lambda>b. iou_value b g) ` set (ravel ancs)))"
      unfolding p by (rule marks_pos_value [OF ne False mem df])
    have 2: "?neg ! r ! c ! a \<longleftrightarrow> Max (iou_value ?anc ` set gtbs) \<le> lo"
      unfolding n by (simp add: row_max_value(2) [OF ne dfa] np_le_def)
    from argmax_value [OF ne dfa] obtain k where k: "k < length gtbs"
      and ka: "np_argmax (map (\<lambda>gtb. iou ?anc gtb) gtbs) = k"
      and kv: "iou_value ?anc (gtbs ! k) = Max (iou_value ?anc ` set gtbs)"
      and kl: "\<forall>j<k. iou_value ?anc (gtbs ! j) < iou_value ?anc (gtbs ! k)"
      by blast
    have 3: "\<exists>k<length gtbs.
                 ?par ! r ! c ! a = coords2param ?anc (gtbs ! k)
                 \<and> iou_value ?anc (gtbs ! k) = Max (iou_value ?anc ` set gtbs)
                 \<and> (\<forall>j<k. iou_value ?anc (gtbs ! j) < iou_value ?anc (gtbs ! k))"
      using k q ka kv kl by (intro exI [of _ k]) simp
    from 1 2 3 show ?thesis by (intro conjI)
  qed
  show ?thesis
    apply (rule disjI2)
    apply (rule conjI [OF nz])
    apply (rule exI [of _ ?pos], rule exI [of _ ?neg], rule exI [of _ ?par])
    apply (rule conjI [OF res])
    apply (rule conjI [OF shp])
    apply (rule conjI [OF shn])
    apply (rule conjI [OF shr])
    apply (intro allI impI)
    apply (rule el; assumption)
    done
qed

lemma iou_value_boxes:
  "iou_value [y1, x1, y2, x2] [v1, u1, v2, u2] =
     axis_overlap x1 x2 u1 u2 * axis_overlap y1 y2 v1 v2
       / ((y2 - y1) * (x2 - x1) + (v2 - v1) * (u2 - u1)
          - axis_overlap x1 x2 u1 u2 * axis_overlap y1 y2 v1 v2)"
  by (simp add: iou_value_def intersect_boxes union_boxes_boxes)

text \<open>
  Two anchors at one position and one ground-truth box, equal to the first anchor: the
  IoUs are 1 and 1/4.
\<close>

theorem anchors_vs_gt_correct_witness:
  "\<exists>pos neg par.
     anchors_vs_gt [[[[0, 0, 2, 2], [0, 0, 4, 4]]]] [[0, 0, 2, 2]] (3 / 10) (7 / 10)
       = Inr (pos, neg, par)
     \<and> pos ! 0 ! 0 ! 0 \<and> \<not> pos ! 0 ! 0 ! 1 \<and> \<not> neg ! 0 ! 0 ! 0 \<and> neg ! 0 ! 0 ! 1"
proof -
  let ?ancs = "[[[[0, 0, 2, 2], [0, 0, 4, 4::real]]]]" and ?gtbs = "[[0, 0, 2, 2::real]]"
  have h1: "shape3 1 1 2 ?ancs" by (simp add: shape3_def)
  have h2: "?gtbs \<noteq> []" by simp
  have i0: "iou [0, 0, 2, 2] [0, 0, 2, 2] = Some 1"
    by (simp add: iou_boxes np_div_def axis_overlap_def)
  have i1: "iou [0, 0, 4, 4] [0, 0, 2, 2] = Some (1 / 4)"
    by (simp add: iou_boxes np_div_def axis_overlap_def)
  have h3: "\<forall>anc\<in>set (ravel ?ancs). \<forall>g\<in>set ?gtbs. iou anc g \<noteq> None"
    by (simp add: ravel_def i0 i1 del: not_None_eq)
  have v0: "iou_value [0, 0, 2, 2] [0, 0, 2, 2] = 1"
    by (simp add: iou_value_boxes axis_overlap_def)
  have v1: "iou_value [0, 0, 4, 4] [0, 0, 2, 2] = 1 / 4"
    by (simp add: iou_value_boxes axis_overlap_def)
  from anchors_vs_gt_correct [OF h1 h2 h3, of "3 / 10" "7 / 10"]
  obtain pos neg par where
    res: "anchors_vs_gt ?ancs ?gtbs (3 / 10) (7 / 10) = Inr (pos, neg, par)"
    and el: "\<forall>r<1. \<forall>c<1. \<forall>a<2.
             (pos ! r ! c ! a \<longleftrightarrow>
                7 / 10 \<le> Max (iou_value (?ancs ! r ! c ! a) ` set ?gtbs) \<or>
                (\<exists>g\<in>set ?gtbs.
                   iou_value (?ancs ! r ! c ! a) g = Max ((\<lambda>b. iou_value b g) ` set (ravel ?ancs))
                   \<and> 0 < Max ((\<lambda>b. iou_value b g) ` set (ravel ?ancs))))
           \<and> (neg ! r ! c ! a \<longleftrightarrow> Max (iou_value (?ancs ! r ! c ! a) ` set ?gtbs) \<le> 3 / 10)
           \<and> (\<exists>k<length ?gtbs.
                 par ! r ! c ! a = coords2param (?ancs ! r ! c ! a) (?gtbs ! k)
                 \<and> iou_value (?ancs ! r ! c ! a) (?gtbs ! k)
                     = Max (iou_value (?ancs ! r ! c ! a) ` set ?gtbs)
                 \<and> (\<forall>j<k. iou_value (?ancs ! r ! c ! a) (?gtbs ! j)
                             < iou_value (?ancs ! r ! c ! a) (?gtbs ! k)))"
    by auto
  from el have e0: "pos ! 0 ! 0 ! 0 \<longleftrightarrow>
                7 / 10 \<le> Max (iou_value (?ancs ! 0 ! 0 ! 0) ` set ?gtbs) \<or>
                (\<exists>g\<in>set ?gtbs.
                   iou_value (?ancs ! 0 ! 0 ! 0) g = Max ((\<lambda>b. iou_value b g) ` set (ravel ?ancs))
                   \<and> 0 < Max ((\<lambda>b. iou_value b g) ` set (ravel ?ancs)))"
    and n0: "neg ! 0 ! 0 ! 0 \<longleftrightarrow> Max (iou_value (?ancs ! 0 ! 0 ! 0) ` set ?gtbs) \<le> 3 / 10"
    by simp_all
  from el have "(1::nat) < 2 \<longrightarrow> (pos ! 0 ! 0 ! 1 \<longleftrightarrow>
                7 / 10 \<le> Max (iou_value (?ancs ! 0 ! 0 ! 1) ` set ?gtbs) \<or>
                (\<exists>g\<in>set ?gtbs.
                   iou_value (?ancs ! 0 ! 0 ! 1) g = Max ((\<lambda>b. iou_value b g) ` set (ravel ?ancs))
                   \<and> 0 < Max ((\<lambda>b. iou_value b g) ` set (ravel ?ancs)))) \<and>
         (neg ! 0 ! 0 ! 1 \<longleftrightarrow> Max (iou_value (?ancs ! 0 ! 0 ! 1) ` set ?gtbs) \<le> 3 / 10)"
    by simp
  then have e1: "pos ! 0 ! 0 ! 1 \<longleftrightarrow>
                7 / 10 \<le> Max (iou_value (?ancs ! 0 ! 0 ! 1) ` set ?gtbs) \<or>
                (\<exists>g\<in>set ?gtbs.
                   iou_value (?ancs ! 0 ! 0 ! 1) g = Max ((\<lambda>b. iou_value b g) ` set (ravel ?ancs))
                   \<and> 0 < Max ((\<lambda>b. iou_value b g) ` set (ravel ?ancs)))"
    and n1: "neg ! 0 ! 0 ! 1 \<longleftrightarrow> Max (iou_value (?ancs ! 0 ! 0 ! 1) ` set ?gtbs) \<le> 3 / 10"
    by simp_all
  have "pos ! 0 ! 0 ! 0" unfolding e0 by (simp add: v0)
  moreover have "\<not> pos ! 0 ! 0 ! 1" unfolding e1 by (simp add: v0 v1 ravel_def)
  moreover have "\<not> neg ! 0 ! 0 ! 0" unfolding n0 by (simp add: v0)
  moreover have "neg ! 0 ! 0 ! 1" unfolding n1 by (simp add: v1)
  ultimately show ?thesis using res by blast
qed

subsection \<open>Properties of the data generator\<close>

text \<open>
  When \<open>anchors_vs_gt\<close> raises, and what a run of a generator yields.
\<close>

lemma anchors_vs_gt_no_box: "anchors_vs_gt ancs [] lo hi = Inl ValueError"
  by (simp add: anchors_vs_gt_def)

lemma anchors_vs_gt_isl:
  "isl (anchors_vs_gt ancs gtbs lo hi) \<longleftrightarrow> gtbs = [] \<or> ravel ancs = []"
proof (cases "gtbs = [] \<or> ravel ancs = []")
  case True
  then show ?thesis
    using anchors_vs_gt_no_box [of ancs lo hi] anchors_vs_gt_no_anchor [of gtbs ancs lo hi]
    by (cases "gtbs = []") auto
next
  case False
  then show ?thesis using anchors_vs_gt_unfold [of gtbs ancs lo hi] by simp
qed

lemma run_gen_all:
  assumes "\<forall>i\<in>set is. \<not> isl (f i)"
  shows "run_gen f is = (map (\<lambda>i. projr (f i)) is, None)"
  using assms by (induction "is") (auto split: sum.splits)

lemma run_gen_prefix:
  "\<exists>n\<le>length is. fst (run_gen f is) = map (\<lambda>i. projr (f i)) (take n is)
      \<and> (\<forall>i\<in>set (take n is). \<not> isl (f i))
      \<and> (snd (run_gen f is) = None \<longleftrightarrow> n = length is)"
proof (induction "is")
  case Nil
  then show ?case by simp
next
  case (Cons i "is")
  show ?case
  proof (cases "f i")
    case (Inl e)
    have "fst (run_gen f (i # is)) = map (\<lambda>i. projr (f i)) (take 0 (i # is))"
      using Inl by simp
    moreover have "\<forall>j\<in>set (take 0 (i # is)). \<not> isl (f j)" by simp
    moreover have "snd (run_gen f (i # is)) = None \<longleftrightarrow> 0 = length (i # is)"
      using Inl by simp
    ultimately show ?thesis by (intro exI [of _ 0] conjI) simp_all
  next
    case (Inr y)
    from Cons.IH obtain n where n1: "n \<le> length is"
      and n2: "fst (run_gen f is) = map (\<lambda>i. projr (f i)) (take n is)"
      and n3: "\<forall>i\<in>set (take n is). \<not> isl (f i)"
      and n4: "snd (run_gen f is) = None \<longleftrightarrow> n = length is"
      by (elim exE conjE)
    have r: "run_gen f (i # is) = (y # fst (run_gen f is), snd (run_gen f is))"
      using Inr by (simp add: case_prod_beta)
    have "Suc n \<le> length (i # is)" using n1 by simp
    moreover have "fst (run_gen f (i # is)) = map (\<lambda>i. projr (f i)) (take (Suc n) (i # is))"
      unfolding r using Inr n2 by simp
    moreover have "\<forall>j\<in>set (take (Suc n) (i # is)). \<not> isl (f j)"
      using Inr n3 by simp
    moreover have "snd (run_gen f (i # is)) = None \<longleftrightarrow> Suc n = length (i # is)"
      unfolding r using n4 by simp
    ultimately show ?thesis by (intro exI [of _ "Suc n"] conjI)
  qed
qed

text \<open>
  Reshaping, concatenating channels and repeating entries.
\<close>

lemma take_chunks_replicate:
  "length xs = m * n \<Longrightarrow>
     length (take_chunks (replicate m n) xs) = m
   \<and> (\<forall>c\<in>set (take_chunks (replicate m n) xs). length c = n)
   \<and> concat (take_chunks (replicate m n) xs) = xs"
proof (induction m arbitrary: xs)
  case 0
  then show ?case by simp
next
  case (Suc m)
  have "length (drop n xs) = m * n" using Suc.prems by simp
  from Suc.IH [OF this] show ?case using Suc.prems by simp
qed

lemma map2_const_left:
  "length xs = length ys \<Longrightarrow> (\<forall>x\<in>set xs. f x = h) \<Longrightarrow> map2 f xs ys = map h ys"
  by (induction xs ys rule: list_induct2) simp_all

lemma map_length_const:
  "(\<forall>x\<in>set xs. length x = n) \<Longrightarrow> map length xs = replicate (length xs) n"
  by (induction xs) simp_all

lemma length_concat_const:
  "(\<forall>x\<in>set xs. length x = n) \<Longrightarrow> length (concat xs) = length xs * n"
  by (induction xs) simp_all

lemma concat_concat_map: "concat (concat xss) = concat (map concat xss)"
  by (induction xss) simp_all

lemma length_ravel_shape3:
  assumes "shape3 rows cols ch t"
  shows "length (ravel t) = rows * cols * ch"
proof -
  have "\<forall>row\<in>set t. length (concat row) = cols * ch"
    using assms by (auto simp: shape3_def length_concat_const)
  then have "length (concat (map concat t)) = length t * (cols * ch)"
    using length_concat_const [of "map concat t" "cols * ch"] by simp
  then show ?thesis using assms by (simp add: ravel_def shape3_def concat_concat_map)
qed

lemma reshape_like_shape3:
  assumes sh: "shape3 rows cols ch t" and len: "length flat = rows * cols * ch"
  shows "reshape_like t flat
           = map (take_chunks (replicate cols ch)) (take_chunks (replicate rows (cols * ch)) flat)"
    and "shape3 rows cols ch (reshape_like t flat)"
    and "ravel (reshape_like t flat) = flat"
proof -
  let ?chunks = "take_chunks (replicate rows (cols * ch)) flat"
  have len': "length flat = rows * (cols * ch)" using len by (simp add: mult.assoc)
  note ch = take_chunks_replicate [OF len']
  have l1: "map (\<lambda>row. length (concat row)) t = replicate rows (cols * ch)"
  proof -
    have "\<forall>row\<in>set t. length (concat row) = cols * ch"
      using sh by (auto simp: shape3_def length_concat_const)
    then have "map (\<lambda>row. length (concat row)) t = map (\<lambda>row. cols * ch) t" by simp
    then show ?thesis using sh by (simp add: shape3_def map_replicate_const)
  qed
  have l2: "\<forall>row\<in>set t. (\<lambda>chunk. take_chunks (map length row) chunk)
                = take_chunks (replicate cols ch)"
  proof
    fix row assume "row \<in> set t"
    then have "length row = cols" "\<forall>cell\<in>set row. length cell = ch"
      using sh by (simp_all add: shape3_def)
    then have "map length row = replicate cols ch" using map_length_const [of row ch] by simp
    then show "(\<lambda>chunk. take_chunks (map length row) chunk) = take_chunks (replicate cols ch)"
      by simp
  qed
  have lc: "length t = length ?chunks" using ch sh by (simp add: shape3_def)
  show eq: "reshape_like t flat = map (take_chunks (replicate cols ch)) ?chunks"
    unfolding reshape_like_def l1 by (rule map2_const_left [OF lc l2])
  have cell: "length (take_chunks (replicate cols ch) c) = cols
      \<and> (\<forall>x\<in>set (take_chunks (replicate cols ch) c). length x = ch)
      \<and> concat (take_chunks (replicate cols ch) c) = c" if "c \<in> set ?chunks" for c
  proof -
    have "length c = cols * ch" using ch that by blast
    then show ?thesis by (rule take_chunks_replicate)
  qed
  show "shape3 rows cols ch (reshape_like t flat)"
    unfolding eq shape3_def using ch cell by auto
  have "concat (map (\<lambda>c. concat (take_chunks (replicate cols ch) c)) ?chunks)
      = concat (map (\<lambda>c. c) ?chunks)"
    using cell by (intro arg_cong [where f = concat] map_cong refl) simp
  then show "ravel (reshape_like t flat) = flat"
    unfolding eq ravel_def using ch
    by (simp add: concat_concat_map comp_def)
qed

lemma length_filter_boxes:
  "length (fst (filter_boxes p n num cp cn)) = length p"
  "length (snd (filter_boxes p n num cp cn)) = length n"
  by (simp_all add: filter_boxes_def Let_def length_clear_at)

lemma rows_concat_slices:
  "length ps = length qs \<Longrightarrow> (\<forall>p\<in>set ps. length p = n) \<Longrightarrow>
     map (take n) (map2 (@) ps qs) = ps \<and> map (drop n) (map2 (@) ps qs) = qs"
  by (induction ps qs rule: list_induct2) simp_all

lemma concat_slices:
  assumes "shape3 rows cols n P" "shape3 rows cols m N"
  shows "slice_to n (map2 (map2 (@)) P N) = P"
    and "slice_from n (map2 (map2 (@)) P N) = N"
    and "shape3 rows cols (n + m) (map2 (map2 (@)) P N)"
proof -
  have len: "length P = length N" using assms by (simp add: shape3_def)
  have p: "\<forall>row\<in>set P. length row = cols \<and> (\<forall>c\<in>set row. length c = n)"
    using assms(1) by (simp add: shape3_def)
  have q: "\<forall>row\<in>set N. length row = cols \<and> (\<forall>c\<in>set row. length c = m)"
    using assms(2) by (simp add: shape3_def)
  from len p q have "map (map (take n)) (map2 (map2 (@)) P N) = P
      \<and> map (map (drop n)) (map2 (map2 (@)) P N) = N
      \<and> (\<forall>row\<in>set (map2 (map2 (@)) P N). length row = cols \<and> (\<forall>c\<in>set row. length c = n + m))"
  proof (induction P N rule: list_induct2)
    case Nil
    then show ?case by simp
  next
    case (Cons x xs y ys)
    have lxy: "length x = length y" using Cons.prems by simp
    have xn: "\<forall>p\<in>set x. length p = n" using Cons.prems by simp
    have ym: "\<forall>p\<in>set y. length p = m" using Cons.prems by simp
    note r = rows_concat_slices [OF lxy xn]
    have cells: "\<forall>c\<in>set (map2 (@) x y). length c = n + m"
      using xn ym by (auto simp: set_zip)
    have ih: "map (map (take n)) (map2 (map2 (@)) xs ys) = xs
      \<and> map (map (drop n)) (map2 (map2 (@)) xs ys) = ys
      \<and> (\<forall>row\<in>set (map2 (map2 (@)) xs ys). length row = cols \<and> (\<forall>c\<in>set row. length c = n + m))"
      using Cons.prems by (intro Cons.IH) simp_all
    show ?case using r cells ih lxy Cons.prems(1) by simp
  qed
  then show "slice_to n (map2 (map2 (@)) P N) = P"
    and "slice_from n (map2 (map2 (@)) P N) = N"
    and "shape3 rows cols (n + m) (map2 (map2 (@)) P N)"
    using len assms(1) by (simp_all add: slice_to_def slice_from_def shape3_def)
qed

lemma np_repeat4:
  "length (np_repeat 4 xs) = 4 * length xs"
  "a < length xs \<Longrightarrow> k < 4 \<Longrightarrow> np_repeat 4 xs ! (4 * a + k) = xs ! a"
proof -
  show "length (np_repeat 4 xs) = 4 * length xs"
    by (induction xs) (simp_all add: np_repeat_def)
  show "a < length xs \<Longrightarrow> k < 4 \<Longrightarrow> np_repeat 4 xs ! (4 * a + k) = xs ! a"
  proof (induction xs arbitrary: a)
    case Nil
    then show ?case by simp
  next
    case (Cons x xs)
    have unf: "np_repeat 4 (x # xs) = replicate 4 x @ np_repeat 4 xs"
      by (simp add: np_repeat_def)
    show ?case
    proof (cases a)
      case 0
      then show ?thesis using Cons.prems by (simp add: unf nth_append)
    next
      case (Suc b)
      then have "np_repeat 4 (x # xs) ! (4 * a + k) = np_repeat 4 xs ! (4 * b + k)"
        by (simp add: unf nth_append)
      also have "\<dots> = xs ! b" using Cons.prems Suc by (intro Cons.IH) simp_all
      finally show ?thesis using Suc by simp
    qed
  qed
qed

lemma concat4:
  assumes "\<forall>c\<in>set xs. length c = 4"
  shows "length (concat xs) = 4 * length xs"
    and "a < length xs \<Longrightarrow> k < 4 \<Longrightarrow> concat xs ! (4 * a + k) = xs ! a ! k"
proof -
  show "length (concat xs) = 4 * length xs"
    using assms by (induction xs) simp_all
  show "a < length xs \<Longrightarrow> k < 4 \<Longrightarrow> concat xs ! (4 * a + k) = xs ! a ! k"
    using assms
  proof (induction xs arbitrary: a)
    case Nil
    then show ?case by simp
  next
    case (Cons x xs)
    have lx: "length x = 4" using Cons.prems by simp
    show ?case
    proof (cases a)
      case 0
      then show ?thesis using Cons.prems lx by (simp add: nth_append)
    next
      case (Suc b)
      then have "concat (x # xs) ! (4 * a + k) = concat xs ! (4 * b + k)"
        using lx by (simp add: nth_append)
      also have "\<dots> = xs ! b ! k" using Cons.prems Suc by (intro Cons.IH) simp_all
      finally show ?thesis using Suc by simp
    qed
  qed
qed

lemma shape3_map3l_iff: "shape3 rows cols ch (map3l f t) \<longleftrightarrow> shape3 rows cols ch t"
  by (simp add: shape3_def map3l_def)

lemma slice_map3l:
  "slice_to n (map3l f t) = map3l f (slice_to n t)"
  "slice_from n (map3l f t) = map3l f (slice_from n t)"
  by (simp_all add: slice_to_def slice_from_def map3l_def take_map drop_map)

lemma length_coords2param: "length (coords2param anc gtb) = 4"
  by (simp add: coords2param_def Let_def)

lemma anchors_vs_gt_Inr:
  assumes sh: "shape3 rows cols anc_num ancs"
    and res: "anchors_vs_gt ancs gtbs lo hi = Inr (pos, neg, par)"
  shows "shape3 rows cols anc_num pos" "shape3 rows cols anc_num neg"
    "shape3 rows cols anc_num par"
    "\<forall>row\<in>set par. \<forall>cell\<in>set row. \<forall>e\<in>set cell. length e = 4"
proof -
  have "\<not> isl (anchors_vs_gt ancs gtbs lo hi)" using res by simp
  then have ne: "gtbs \<noteq> []" "ravel ancs \<noteq> []" by (simp_all add: anchors_vs_gt_isl)
  note u = anchors_vs_gt_unfold [OF ne, of lo hi]
  from u res have p: "pos = map3l (marks_pos (ravel ancs) gtbs hi) ancs"
    and n: "neg = map3l (\<lambda>anc. np_le (np_max (map (\<lambda>gtb. iou anc gtb) gtbs)) lo) ancs"
    and q: "par = map3l (\<lambda>anc. coords2param anc
                   (gtbs ! np_argmax (map (\<lambda>gtb. iou anc gtb) gtbs))) ancs"
    by simp_all
  show "shape3 rows cols anc_num pos" unfolding p by (rule map3l_shape3(1) [OF sh])
  show "shape3 rows cols anc_num neg" unfolding n by (rule map3l_shape3(1) [OF sh])
  show "shape3 rows cols anc_num par" unfolding q by (rule map3l_shape3(1) [OF sh])
  show "\<forall>row\<in>set par. \<forall>cell\<in>set row. \<forall>e\<in>set cell. length e = 4"
    unfolding q by (auto simp: map3l_def length_coords2param)
qed

lemma datagen_step_Inr:
  assumes "datagen_step ancs csv rnd imread i = Inr (x_img, y_cls, y_regr)"
  shows "\<exists>temp pos0 neg0 par img.
      gt_boxes csv i = Inr temp
    \<and> anchors_vs_gt ancs (map (map real_of_int) temp) 0.3 0.7 = Inr (pos0, neg0, par)
    \<and> imread i = Some img \<and> x_img = [img]
    \<and> y_cls = [map2 (map2 (@))
         (map3l (\<lambda>b. if b then 1 else 0) (reshape_like pos0
            (fst (filter_boxes (ravel pos0) (ravel neg0) 256 (fst (rnd i)) (snd (rnd i))))))
         (map3l (\<lambda>b. if b then 1 else 0) (reshape_like neg0
            (snd (filter_boxes (ravel pos0) (ravel neg0) 256 (fst (rnd i)) (snd (rnd i))))))]
    \<and> y_regr = [map2 (map2 (@))
         (map (map (np_repeat 4)) (map3l (\<lambda>b. Some (if b then 1 else 0)) (reshape_like pos0
            (fst (filter_boxes (ravel pos0) (ravel neg0) 256 (fst (rnd i)) (snd (rnd i)))))))
         (map (map concat) par)]"
  using assms
  by (auto simp: datagen_step_def Let_def case_prod_beta split: sum.splits option.splits)

lemma weights_nth:
  assumes "shape3 rows cols anc_num pos" "r < rows" "c < cols" "a < anc_num" "k < 4"
  shows "map (map (np_repeat 4)) (map3l f pos) ! r ! c ! (4 * a + k) = f (pos ! r ! c ! a)"
proof -
  have l: "length pos = rows" "length (pos ! r) = cols" "length (pos ! r ! c) = anc_num"
    using assms shape3_length shape3_row shape3_cell by blast+
  have "map (map (np_repeat 4)) (map3l f pos) ! r ! c = np_repeat 4 (map f (pos ! r ! c))"
    using l assms(2,3) by (simp add: map3l_def)
  then show ?thesis using np_repeat4(2) [of a "map f (pos ! r ! c)" k] l assms(4,5) by simp
qed

lemma weights_shape3:
  assumes "shape3 rows cols anc_num pos"
  shows "shape3 rows cols (4 * anc_num) (map (map (np_repeat 4)) (map3l f pos))"
  using assms by (auto simp: shape3_def map3l_def np_repeat4(1))

lemma targets_nth:
  assumes "shape3 rows cols anc_num par"
    and "\<forall>row\<in>set par. \<forall>cell\<in>set row. \<forall>e\<in>set cell. length e = 4"
    and "r < rows" "c < cols" "a < anc_num" "k < 4"
  shows "map (map concat) par ! r ! c ! (4 * a + k) = par ! r ! c ! a ! k"
proof -
  have l: "length par = rows" "length (par ! r) = cols" "length (par ! r ! c) = anc_num"
    using assms shape3_length shape3_row shape3_cell by blast+
  have "par ! r \<in> set par" using l assms(3) by simp
  moreover have "par ! r ! c \<in> set (par ! r)" using l assms(4) by simp
  ultimately have four: "\<forall>e\<in>set (par ! r ! c). length e = 4" using assms(2) by blast
  have "map (map concat) par ! r ! c = concat (par ! r ! c)"
    using l assms(3,4) by simp
  then show ?thesis using concat4(2) [OF four, of a k] l assms(5,6) by simp
qed

lemma targets_shape3:
  assumes "shape3 rows cols anc_num par"
    and "\<forall>row\<in>set par. \<forall>cell\<in>set row. \<forall>e\<in>set cell. length e = 4"
  shows "shape3 rows cols (4 * anc_num) (map (map concat) par)"
  using assms by (auto simp: shape3_def concat4(1))

text \<open>
  Claim C7.  Let the anchors have shape (rows, cols, anc_num, 4) and let \<open>datagen\<close> yield
  \<open>(x_img, [y_cls, y_regr])\<close> for an image.  With \<open>pos\<close> and \<open>neg\<close> the masks that \<open>filter_boxes\<close>
  returns for the masks of \<open>anchors_vs_gt\<close>, and \<open>par\<close> the parameters of \<open>anchors_vs_gt\<close>:
  \<open>y_cls\<close> and \<open>y_regr\<close> are batches of one tensor, of \<open>2 * anc_num\<close> and \<open>8 * anc_num\<close>
  channels; the slices that \<open>rpn_cls_loss anc_num\<close> reads as \<open>postrue\<close> and \<open>negtrue\<close> are \<open>pos\<close>
  and \<open>neg\<close>; in the slice that \<open>rpn_regr_loss anc_num\<close> reads as \<open>ptrue\<close> the channels
  \<open>4 * a, ..., 4 * a + 3\<close> hold \<open>pos\<close> at anchor \<open>a\<close>, and in the slice it reads as the target
  they hold the four parameters of anchor \<open>a\<close>.  Hence, when the entries of \<open>y_regr\<close> are
  finite numbers, the regression loss is the sum of \<open>smoothL1 (t - t_hat)\<close> over the channels
  of the anchors marked positive.
\<close>

theorem datagen_layout_matches_losses:
  assumes sh: "shape3 rows cols anc_num ancs"
    and res: "datagen_step ancs csv rnd imread i = Inr (x_img, y_cls, y_regr)"
  shows "\<exists>temp pos0 neg0 par pos neg yc yr.
      gt_boxes csv i = Inr temp
    \<and> anchors_vs_gt ancs (map (map real_of_int) temp) 0.3 0.7 = Inr (pos0, neg0, par)
    \<and> shape3 rows cols anc_num pos \<and> shape3 rows cols anc_num neg
    \<and> ravel pos = fst (filter_boxes (ravel pos0) (ravel neg0) 256 (fst (rnd i)) (snd (rnd i)))
    \<and> ravel neg = snd (filter_boxes (ravel pos0) (ravel neg0) 256 (fst (rnd i)) (snd (rnd i)))
    \<and> y_cls = [yc] \<and> y_regr = [yr]
    \<and> shape3 rows cols (2 * anc_num) yc \<and> shape3 rows cols (8 * anc_num) yr
    \<and> slice_to anc_num yc = map3l (\<lambda>b. if b then 1 else 0) pos
    \<and> slice_from anc_num yc = map3l (\<lambda>b. if b then 1 else 0) neg
    \<and> (\<forall>ppred. rpn_cls_loss anc_num (map3l real_of_int yc) ppred
          = cls_loss (map3l (\<lambda>b. if b then 1 else 0) pos) (map3l (\<lambda>b. if b then 1 else 0) neg) ppred)
    \<and> (\<forall>r<rows. \<forall>c<cols. \<forall>a<anc_num. \<forall>k<4.
          slice_to (4 * anc_num) yr ! r ! c ! (4 * a + k) = Some (if pos ! r ! c ! a then 1 else 0)
        \<and> slice_from (4 * anc_num) yr ! r ! c ! (4 * a + k) = par ! r ! c ! a ! k)
    \<and> (\<forall>t ypred. yr = map3l Some t \<and> shape3 rows cols (4 * anc_num) ypred \<longrightarrow>
          rpn_regr_loss anc_num t ypred =
            (\<Sum>r<rows. \<Sum>c<cols. \<Sum>j<4 * anc_num.
               if pos ! r ! c ! (j div 4)
               then smoothL1 (the (par ! r ! c ! (j div 4) ! (j mod 4)) - ypred ! r ! c ! j)
               else 0))"
proof -
  from datagen_step_Inr [OF res] obtain temp pos0 neg0 par where
    gtb: "gt_boxes csv i = Inr temp"
    and avg: "anchors_vs_gt ancs (map (map real_of_int) temp) 0.3 0.7 = Inr (pos0, neg0, par)"
    and ycls: "y_cls = [map2 (map2 (@))
         (map3l (\<lambda>b. if b then 1 else 0) (reshape_like pos0
            (fst (filter_boxes (ravel pos0) (ravel neg0) 256 (fst (rnd i)) (snd (rnd i))))))
         (map3l (\<lambda>b. if b then 1 else 0) (reshape_like neg0
            (snd (filter_boxes (ravel pos0) (ravel neg0) 256 (fst (rnd i)) (snd (rnd i))))))]"
    and yregr: "y_regr = [map2 (map2 (@))
         (map (map (np_repeat 4)) (map3l (\<lambda>b. Some (if b then 1 else 0)) (reshape_like pos0
            (fst (filter_boxes (ravel pos0) (ravel neg0) 256 (fst (rnd i)) (snd (rnd i)))))))
         (map (map concat) par)]"
    by (elim exE conjE)
  let ?fb = "filter_boxes (ravel pos0) (ravel neg0) 256 (fst (rnd i)) (snd (rnd i))"
  let ?pos = "reshape_like pos0 (fst ?fb)" and ?neg = "reshape_like neg0 (snd ?fb)"
  let ?P = "map3l (\<lambda>b. if b then 1 else 0::int) ?pos"
  let ?N = "map3l (\<lambda>b. if b then 1 else 0::int) ?neg"
  let ?W = "map (map (np_repeat 4)) (map3l (\<lambda>b. Some (if b then 1 else 0::real)) ?pos)"
  let ?T = "map (map concat) par"
  let ?yc = "map2 (map2 (@)) ?P ?N" and ?yr = "map2 (map2 (@)) ?W ?T"
  let ?n4 = "4 * anc_num"
  note shapes = anchors_vs_gt_Inr [OF sh avg]
  have lp: "length (fst ?fb) = rows * cols * anc_num"
    by (simp add: length_filter_boxes length_ravel_shape3 [OF shapes(1)])
  have ln: "length (snd ?fb) = rows * cols * anc_num"
    by (simp add: length_filter_boxes length_ravel_shape3 [OF shapes(2)])
  have shp: "shape3 rows cols anc_num ?pos" by (rule reshape_like_shape3(2) [OF shapes(1) lp])
  have shn: "shape3 rows cols anc_num ?neg" by (rule reshape_like_shape3(2) [OF shapes(2) ln])
  have rp: "ravel ?pos = fst ?fb" by (rule reshape_like_shape3(3) [OF shapes(1) lp])
  have rn: "ravel ?neg = snd ?fb" by (rule reshape_like_shape3(3) [OF shapes(2) ln])
  have shP: "shape3 rows cols anc_num ?P" by (rule map3l_shape3(1) [OF shp])
  have shN: "shape3 rows cols anc_num ?N" by (rule map3l_shape3(1) [OF shn])
  note cs = concat_slices [OF shP shN]
  have shyc: "shape3 rows cols (2 * anc_num) ?yc" using cs(3) by (simp add: mult_2)
  have shW: "shape3 rows cols ?n4 ?W" by (rule weights_shape3 [OF shp])
  have shT: "shape3 rows cols ?n4 ?T" by (rule targets_shape3 [OF shapes(3,4)])
  note rs = concat_slices [OF shW shT]
  have shyr: "shape3 rows cols (8 * anc_num) ?yr" using rs(3) by simp
  have cls: "rpn_cls_loss anc_num (map3l real_of_int ?yc) ppred
          = cls_loss (map3l (\<lambda>b. if b then 1 else 0) ?pos) (map3l (\<lambda>b. if b then 1 else 0) ?neg) ppred"
    for ppred
  proof -
    have f: "(\<lambda>x. real_of_int (if x then 1 else 0)) = (\<lambda>b. if b then 1 else 0)" by auto
    show ?thesis
      by (simp add: rpn_cls_loss_def slice_map3l cs(1,2) map3l_map3l f)
  qed
  have el: "slice_to ?n4 ?yr ! r ! c ! (4 * a + k) = Some (if ?pos ! r ! c ! a then 1 else 0)
        \<and> slice_from ?n4 ?yr ! r ! c ! (4 * a + k) = par ! r ! c ! a ! k"
    if b: "r < rows" "c < cols" "a < anc_num" "k < 4" for r c a k
    unfolding rs(1,2)
    using weights_nth [OF shp b, of "\<lambda>b. Some (if b then 1 else 0::real)"]
      targets_nth [OF shapes(3,4) b]
    by simp
  have regr: "rpn_regr_loss anc_num t ypred =
            (\<Sum>r<rows. \<Sum>c<cols. \<Sum>j<?n4.
               if ?pos ! r ! c ! (j div 4)
               then smoothL1 (the (par ! r ! c ! (j div 4) ! (j mod 4)) - ypred ! r ! c ! j)
               else 0)"
    if h: "?yr = map3l Some t \<and> shape3 rows cols ?n4 ypred" for t ypred
  proof -
    from h have yt: "?yr = map3l Some t" and shy: "shape3 rows cols ?n4 ypred" by simp_all
    have sht: "shape3 rows cols (8 * anc_num) t"
      using shyr unfolding yt by (simp add: shape3_map3l_iff)
    have "rpn_regr_loss anc_num t ypred =
        (\<Sum>r<rows. \<Sum>c<cols. \<Sum>j<?n4.
           t ! r ! c ! j * smoothL1 (t ! r ! c ! (?n4 + j) - ypred ! r ! c ! j))"
      by (rule rpn_regr_loss_sum [OF sht shy])
    also have "\<dots> = (\<Sum>r<rows. \<Sum>c<cols. \<Sum>j<?n4.
               if ?pos ! r ! c ! (j div 4)
               then smoothL1 (the (par ! r ! c ! (j div 4) ! (j mod 4)) - ypred ! r ! c ! j)
               else 0)"
    proof (intro sum.cong refl)
      fix r c j assume "r \<in> {..<rows}" "c \<in> {..<cols}" "j \<in> {..<?n4}"
      then have b: "r < rows" "c < cols" "j < ?n4" by simp_all
      have a: "j div 4 < anc_num" "j mod 4 < 4" using b(3) by auto
      have j: "4 * (j div 4) + j mod 4 = j" by simp
      note e = el [OF b(1,2) a, unfolded j]
      have "Some (t ! r ! c ! j) = map3l Some t ! r ! c ! j"
        using map3l_shape3(2) [OF sht b(1,2), of j Some] b(3) by simp
      also have "\<dots> = slice_to ?n4 ?yr ! r ! c ! j"
        unfolding yt [symmetric]
        using slice_to_shape3(2) [OF shyr, of ?n4 r c j] b by simp
      finally have w: "t ! r ! c ! j = (if ?pos ! r ! c ! (j div 4) then 1 else 0)"
        using e by simp
      have "Some (t ! r ! c ! (?n4 + j)) = map3l Some t ! r ! c ! (?n4 + j)"
        using map3l_shape3(2) [OF sht b(1,2), of "?n4 + j" Some] b(3) by simp
      also have "\<dots> = slice_from ?n4 ?yr ! r ! c ! j"
        unfolding yt [symmetric]
        using slice_from_shape3(2) [OF shyr, of ?n4 r c j] b by simp
      finally have v: "t ! r ! c ! (?n4 + j) = the (par ! r ! c ! (j div 4) ! (j mod 4))"
        using e by (metis option.sel)
      show "t ! r ! c ! j * smoothL1 (t ! r ! c ! (?n4 + j) - ypred ! r ! c ! j)
          = (if ?pos ! r ! c ! (j div 4)
             then smoothL1 (the (par ! r ! c ! (j div 4) ! (j mod 4)) - ypred ! r ! c ! j)
             else 0)"
        unfolding w v by simp
    qed
    finally show ?thesis .
  qed
  show ?thesis
    apply (rule exI [of _ temp])
    apply (rule exI [of _ pos0], rule exI [of _ neg0], rule exI [of _ par])
    apply (rule exI [of _ ?pos], rule exI [of _ ?neg])
    apply (rule exI [of _ ?yc], rule exI [of _ ?yr])
    apply (rule conjI [OF gtb])
    apply (rule conjI [OF avg])
    apply (rule conjI [OF shp])
    apply (rule conjI [OF shn])
    apply (rule conjI [OF rp])
    apply (rule conjI [OF rn])
    apply (rule conjI [OF ycls])
    apply (rule conjI [OF yregr])
    apply (rule conjI [OF shyc])
    apply (rule conjI [OF shyr])
    apply (rule conjI [OF cs(1)])
    apply (rule conjI [OF cs(2)])
    apply (rule conjI)
     apply (rule allI)
     apply (rule cls)
    apply (rule conjI)
     apply (intro allI impI)
     apply (rule el; assumption)
    apply (intro allI impI)
    apply (erule regr)
    done
qed

text \<open>
  One position with two anchors and one ground-truth box equal to the first anchor.
\<close>

theorem datagen_layout_matches_losses_witness:
  "datagen_step [[[[0, 0, 2, 2], [0, 0, 4, 4]]]] (Table [[0, 0, 0, 2, 2, 1], [1, 0, 0, 4, 4, 1]])
       no_choice Some 0
     = Inr ([0], [[[[1, 0, 0, 1]]]],
            [[[[Some 1, Some 1, Some 1, Some 1, Some 0, Some 0, Some 0, Some 0,
                Some 0, Some 0, Some 0, Some 0, Some 0, Some 0, Some (ln (1 / 2)), Some (ln (1 / 2))]]]])
   \<and> shape3 1 1 (2 * 2) [[[1, 0, 0, 1::int]]]
   \<and> shape3 1 1 (8 * 2)
         [[[Some 1, Some 1, Some 1, Some 1, Some 0, Some 0, Some 0, Some 0,
            Some 0, Some 0, Some 0, Some 0, Some 0, Some 0, Some (ln (1 / 2)), Some (ln (1 / 2 :: real))]]]"
proof -
  let ?A = "[[[[0, 0, 2, 2], [0, 0, 4, 4::real]]]]"
  have sh: "shape3 1 1 2 ?A" by (simp add: shape3_def)
  have res: "datagen_step ?A (Table [[0, 0, 0, 2, 2, 1], [1, 0, 0, 4, 4, 1]]) no_choice Some 0
     = Inr ([0], [[[[1, 0, 0, 1]]]],
            [[[[Some 1, Some 1, Some 1, Some 1, Some 0, Some 0, Some 0, Some 0,
                Some 0, Some 0, Some 0, Some 0, Some 0, Some 0, Some (ln (1 / 2)), Some (ln (1 / 2))]]]])"
    by (simp add: datagen_step_def gt_boxes_def ncols_def anchors_vs_gt_def Let_def map3l_def ravel_def
      iou_boxes np_div_def axis_overlap_def np_max2_def np_ge_def np_le_def np_gt_def np_eq_def
      np_argmax_def coords2param_def np_log_def filter_boxes_def count_true_def no_choice_def
      reshape_like_def np_repeat_def eval_nat_numeral ln_div)
  have "\<exists>yc yr. [[[[1, 0, 0, 1::int]]]] = [yc] \<and> shape3 1 1 (2 * 2) yc
    \<and> [[[[Some 1, Some 1, Some 1, Some 1, Some 0, Some 0, Some 0, Some 0,
            Some 0, Some 0, Some 0, Some 0, Some 0, Some 0, Some (ln (1 / 2)),
            Some (ln (1 / 2 :: real))]]]] = [yr]
    \<and> shape3 1 1 (8 * 2) yr"
    using datagen_layout_matches_losses [OF sh res]
    by (elim exE conjE) (intro exI conjI; assumption)
  then show ?thesis using res by simp
qed

subsection \<open>Properties of a run of the generator\<close>

text \<open>
  When the file loads as a two-dimensional array and when a step yields.
\<close>

lemma np_loadtxt_Table:
  assumes "2 \<le> length lines" "2 \<le> ncols lines" "\<forall>row\<in>set lines. length row = ncols lines"
  shows "np_loadtxt lines = Inr (Table lines)"
  using assms by (auto simp: np_loadtxt_def list_ex_iff)

lemma gt_boxes_Table:
  assumes "5 \<le> ncols rows"
  shows "gt_boxes (Table rows) i
           = Inr (map (\<lambda>row. [row ! 2, row ! 1, row ! 4, row ! 3]) (filter (\<lambda>row. row ! 0 = i) rows))"
  using assms by (simp add: gt_boxes_def Let_def)

lemma datagen_step_yields:
  assumes "5 \<le> ncols rows" "\<exists>row\<in>set rows. row ! 0 = i" "ravel ancs \<noteq> []" "imread i \<noteq> None"
  shows "\<not> isl (datagen_step ancs (Table rows) rnd imread i)"
proof -
  obtain temp where g: "gt_boxes (Table rows) i = Inr temp" and ne: "temp \<noteq> []"
    using gt_boxes_Table [OF assms(1), of i] assms(2) by (simp add: filter_empty_conv)
  have "\<not> isl (anchors_vs_gt ancs (map (map real_of_int) temp) 0.3 0.7)"
    unfolding anchors_vs_gt_isl using ne assms(3) by simp
  then obtain r where r: "anchors_vs_gt ancs (map (map real_of_int) temp) 0.3 0.7 = Inr r"
    by (cases "anchors_vs_gt ancs (map (map real_of_int) temp) 0.3 0.7") auto
  from assms(4) obtain img where img: "imread i = Some img" by auto
  show ?thesis
    by (simp add: datagen_step_def g r img Let_def case_prod_beta)
qed

lemma datagen_step_image:
  "datagen_step ancs csv rnd imread i = Inr y \<Longrightarrow> map Some (fst y) = [imread i]"
  by (auto simp: datagen_step_def Let_def case_prod_beta split: sum.splits option.splits)

text \<open>
  Claim C10, amended.  For the same dataset and the same outcomes of the random choices,
  \<open>datagen\<close> with \<open>shuffle=True\<close> and with \<open>shuffle=False\<close> yield the same sequence and end in the
  same way.  The images of the items yielded are those of a prefix of
  \<open>start, start + 1, ..., stop - 1\<close>, in this order, and the generator ends without an
  exception exactly when the file was loaded and the prefix is the whole range.  No
  exception is raised, and one item is yielded for each number of the range, when the
  anchor array has an anchor, the file has at least two lines of one length of at least
  five fields, and every image number from \<open>start\<close> to \<open>stop - 1\<close> has a line in the file and
  an image that can be read.
\<close>

theorem datagen_shuffle_ignored:
  "datagen start stop ancs True lines rnd imread = datagen start stop ancs False lines rnd imread
   \<and> (\<exists>n\<le>length (np_arange start stop).
         map (\<lambda>item. map Some (fst item)) (fst (datagen start stop ancs shuffle lines rnd imread))
           = map (\<lambda>i. [imread i]) (take n (np_arange start stop))
       \<and> (snd (datagen start stop ancs shuffle lines rnd imread) = None
             \<longleftrightarrow> n = length (np_arange start stop) \<and> \<not> isl (np_loadtxt lines)))
   \<and> (ravel (default_ancs ancs) \<noteq> []
        \<and> 2 \<le> length lines \<and> 5 \<le> ncols lines \<and> (\<forall>row\<in>set lines. length row = ncols lines)
        \<and> (\<forall>i. start \<le> i \<and> i < stop \<longrightarrow> (\<exists>row\<in>set lines. row ! 0 = i) \<and> imread i \<noteq> None)
        \<longrightarrow> snd (datagen start stop ancs shuffle lines rnd imread) = None
          \<and> length (fst (datagen start stop ancs shuffle lines rnd imread)) = nat (stop - start)
          \<and> (\<forall>k<nat (stop - start).
                datagen_step (default_ancs ancs) (Table lines) rnd imread (start + int k)
                  = Inr (fst (datagen start stop ancs shuffle lines rnd imread) ! k)
              \<and> map Some (fst (fst (datagen start stop ancs shuffle lines rnd imread) ! k))
                  = [imread (start + int k)]))"
proof -
  let ?idx = "np_arange start stop"
  have c1: "datagen start stop ancs True lines rnd imread
      = datagen start stop ancs False lines rnd imread"
    by (simp add: datagen_def)
  have c2: "\<exists>n\<le>length ?idx.
         map (\<lambda>item. map Some (fst item)) (fst (datagen start stop ancs shuffle lines rnd imread))
           = map (\<lambda>i. [imread i]) (take n ?idx)
       \<and> (snd (datagen start stop ancs shuffle lines rnd imread) = None
             \<longleftrightarrow> n = length ?idx \<and> \<not> isl (np_loadtxt lines))"
  proof (cases "np_loadtxt lines")
    case (Inl e)
    then have dg: "datagen start stop ancs shuffle lines rnd imread = ([], Some e)"
      by (simp add: datagen_def Let_def)
    show ?thesis unfolding dg using Inl by (intro exI [of _ 0]) simp
  next
    case (Inr csv)
    let ?f = "datagen_step (default_ancs ancs) csv rnd imread"
    have dg: "datagen start stop ancs shuffle lines rnd imread = run_gen ?f ?idx"
      using Inr by (simp add: datagen_def Let_def)
    from run_gen_prefix [of ?idx ?f] obtain n where n: "n \<le> length ?idx"
      and items: "fst (run_gen ?f ?idx) = map (\<lambda>i. projr (?f i)) (take n ?idx)"
      and ok: "\<forall>i\<in>set (take n ?idx). \<not> isl (?f i)"
      and fin: "snd (run_gen ?f ?idx) = None \<longleftrightarrow> n = length ?idx" by (elim exE conjE)
    have "map Some (fst (projr (?f i))) = [imread i]" if "i \<in> set (take n ?idx)" for i
    proof -
      from ok that have "\<not> isl (?f i)" by (rule bspec)
      then obtain y where y: "?f i = Inr y" by (cases "?f i") auto
      then show ?thesis using datagen_step_image [OF y] by simp
    qed
    then have "map (\<lambda>item. map Some (fst item)) (fst (run_gen ?f ?idx))
        = map (\<lambda>i. [imread i]) (take n ?idx)"
      unfolding items by simp
    moreover have "snd (run_gen ?f ?idx) = None \<longleftrightarrow> n = length ?idx \<and> \<not> isl (np_loadtxt lines)"
      using fin Inr by simp
    ultimately show ?thesis using n unfolding dg by (intro exI [of _ n] conjI)
  qed
  have c3: "snd (datagen start stop ancs shuffle lines rnd imread) = None
          \<and> length (fst (datagen start stop ancs shuffle lines rnd imread)) = nat (stop - start)
          \<and> (\<forall>k<nat (stop - start).
                datagen_step (default_ancs ancs) (Table lines) rnd imread (start + int k)
                  = Inr (fst (datagen start stop ancs shuffle lines rnd imread) ! k)
              \<and> map Some (fst (fst (datagen start stop ancs shuffle lines rnd imread) ! k))
                  = [imread (start + int k)])"
    if h: "ravel (default_ancs ancs) \<noteq> []
        \<and> 2 \<le> length lines \<and> 5 \<le> ncols lines \<and> (\<forall>row\<in>set lines. length row = ncols lines)
        \<and> (\<forall>i. start \<le> i \<and> i < stop \<longrightarrow> (\<exists>row\<in>set lines. row ! 0 = i) \<and> imread i \<noteq> None)"
  proof -
    let ?f = "datagen_step (default_ancs ancs) (Table lines) rnd imread"
    from h have anc: "ravel (default_ancs ancs) \<noteq> []" and l2: "2 \<le> length lines"
      and c5: "5 \<le> ncols lines" and rect: "\<forall>row\<in>set lines. length row = ncols lines"
      and each: "\<And>i. start \<le> i \<and> i < stop \<Longrightarrow> (\<exists>row\<in>set lines. row ! 0 = i) \<and> imread i \<noteq> None"
      by simp_all
    have ld: "np_loadtxt lines = Inr (Table lines)"
      using l2 c5 rect by (intro np_loadtxt_Table) simp_all
    have dg: "datagen start stop ancs shuffle lines rnd imread = run_gen ?f ?idx"
      using ld by (simp add: datagen_def Let_def)
    have ok: "\<forall>i\<in>set ?idx. \<not> isl (?f i)"
    proof
      fix i assume "i \<in> set ?idx"
      then have "start \<le> i \<and> i < stop" by (simp add: np_arange_def)
      from each [OF this] have "\<exists>row\<in>set lines. row ! 0 = i" "imread i \<noteq> None" by simp_all
      then show "\<not> isl (?f i)" using c5 anc by (intro datagen_step_yields)
    qed
    have run: "run_gen ?f ?idx = (map (\<lambda>i. projr (?f i)) ?idx, None)"
      by (rule run_gen_all [OF ok])
    have len: "length ?idx = nat (stop - start)" by (simp add: np_arange_def)
    have el: "?f (start + int k) = Inr (map (\<lambda>i. projr (?f i)) ?idx ! k)
        \<and> map Some (fst (map (\<lambda>i. projr (?f i)) ?idx ! k)) = [imread (start + int k)]"
      if k: "k < nat (stop - start)" for k
    proof -
      have nth: "?idx ! k = start + int k" using k by (simp add: np_arange_def)
      have mem: "start + int k \<in> set ?idx" using k by (simp add: np_arange_def)
      with ok have "\<not> isl (?f (start + int k))" by (rule bspec)
      then obtain y where y: "?f (start + int k) = Inr y" by (cases "?f (start + int k)") auto
      show ?thesis using k len nth y datagen_step_image [OF y] by simp
    qed
    show ?thesis unfolding dg run fst_conv snd_conv
      by (intro conjI refl allI impI; (simp only: length_map len)?;
          (rule el [THEN conjunct1] el [THEN conjunct2])?)
  qed
  show ?thesis
    apply (rule conjI [OF c1])
    apply (rule conjI [OF c2])
    apply (rule impI)
    apply (erule c3)
    done
qed

text \<open>
  A grid of 257 anchors away from both ground-truth boxes of an image: all anchors are
  negative, so \<open>filter_boxes\<close> clears one of them, the one that \<open>np.random.choice\<close> picks.
\<close>

lemma zero_not_best: "\<not> (np_eq (Some 0) best \<and> np_gt best 0)"
  by (cases best) (simp_all add: np_eq_def np_gt_def)

lemma far_anchors_assigned:
  assumes "0 < n"
  shows "\<exists>par. anchors_vs_gt [[replicate n [0, 0, 1, 1]]]
            [[10, 10, 12, 12], [20, 20, 22, 22]] (3 / 10) (7 / 10)
          = Inr ([[replicate n False]], [[replicate n True]], par)"
proof -
  let ?b = "[0, 0, 1, 1::real]"
  let ?G = "[[10, 10, 12, 12], [20, 20, 22, 22::real]]"
  have i1: "iou ?b [10, 10, 12, 12] = Some 0" "iou ?b [20, 20, 22, 22] = Some 0"
    by (simp_all add: iou_boxes np_div_def axis_overlap_def)
  have rav: "ravel [[replicate n ?b]] = replicate n ?b" by (simp add: ravel_def)
  have ne: "ravel [[replicate n ?b]] \<noteq> []" using assms by (simp add: rav)
  have g: "?G \<noteq> []" by simp
  have two: "[0..<length ?G] = [0, 1]" by (simp add: upt_rec)
  have p: "marks_pos (replicate n ?b) ?G (7 / 10) ?b = False"
    unfolding marks_pos_def two
    by (simp add: i1 np_max2_def np_ge_def zero_not_best)
  have q: "np_le (np_max (map (\<lambda>gtb. iou ?b gtb) ?G)) (3 / 10) = True"
    by (simp add: i1 np_max2_def np_le_def)
  show ?thesis
    unfolding anchors_vs_gt_unfold [OF g ne] rav
    by (simp add: map3l_def p i1 np_max2_def np_le_def)
qed

lemma np_where_all: "np_where (replicate n True) = [0..<n]"
  by (simp add: np_where_def cong: filter_cong)

lemma filter_boxes_one_negative:
  assumes "k < 257"
  shows "filter_boxes (replicate 257 False) (replicate 257 True) 256 cp [k]
           = (replicate 257 False, (replicate 257 True)[k := False])"
proof -
  have c0: "count_true (replicate 257 False) = 0" by (simp add: count_true_def)
  have c1: "count_true (replicate 257 True) = 257" by (simp add: count_true_def)
  have w: "np_where (replicate 257 True) ! k = k"
    using assms by (simp add: np_where_all)
  show ?thesis
    by (simp add: filter_boxes_def c0 c1 Let_def clear_at_def w)
qed

lemma reshape_like_one_cell:
  "length flat = length cell \<Longrightarrow> reshape_like [[cell]] flat = [[flat]]"
  by (simp add: reshape_like_def)

lemma far_anchors_step:
  assumes "k < 257" "snd (rnd 0) = [k]"
  shows "\<exists>x yr. datagen_step [[replicate 257 [0, 0, 1, 1]]]
            (Table [[0, 10, 10, 12, 12, 1], [0, 20, 20, 22, 22, 1]]) rnd Some 0
          = Inr (x, [[[replicate 257 0 @ map (\<lambda>b. if b then 1 else 0) ((replicate 257 True)[k := False])]]], yr)"
proof -
  have g: "gt_boxes (Table [[0, 10, 10, 12, 12, 1], [0, 20, 20, 22, 22, 1]]) 0
      = Inr [[10, 10, 12, 12], [20, 20, 22, 22]]"
    by (simp add: gt_boxes_def ncols_def)
  from far_anchors_assigned [of 257] obtain par where
    a: "anchors_vs_gt [[replicate 257 [0, 0, 1, 1]]]
            [[10, 10, 12, 12], [20, 20, 22, 22]] (3 / 10) (7 / 10)
          = Inr ([[replicate 257 False]], [[replicate 257 True]], par)" by auto
  note f = filter_boxes_one_negative [OF assms(1), of "fst (rnd 0)"]
  show ?thesis
    by (simp add: datagen_step_def g a assms(2) f ravel_def reshape_like_one_cell map3l_def)
qed

lemma one_negative_differs:
  "replicate 257 (0::int) @ map (\<lambda>b. if b then 1 else 0) ((replicate 257 True)[0 := False])
     \<noteq> replicate 257 0 @ map (\<lambda>b. if b then 1 else 0) ((replicate 257 True)[1 := False])"
proof
  assume "replicate 257 (0::int) @ map (\<lambda>b. if b then 1 else 0) ((replicate 257 True)[0 := False])
     = replicate 257 0 @ map (\<lambda>b. if b then 1 else 0) ((replicate 257 True)[1 := False])"
  then have "map (\<lambda>b. if b then 1 else 0::int) ((replicate 257 True)[0 := False])
     = map (\<lambda>b. if b then 1 else 0) ((replicate 257 True)[1 := False])" by simp
  then have "map (\<lambda>b. if b then 1 else 0::int) ((replicate 257 True)[0 := False]) ! 0
     = map (\<lambda>b. if b then 1 else 0) ((replicate 257 True)[1 := False]) ! 0" by simp
  then show False by simp
qed

text \<open>
  Two ways in which the claim fails.  For a ground-truth file with two lines, both for
  image 1, the generator asked for the images 0 and 1 yields nothing, because
  \<open>anchors_vs_gt\<close> raises ValueError for image 0, whatever \<open>shuffle\<close> is.  And two runs over
  one dataset in which \<open>np.random.choice(257, 1, replace=False)\<close> returns 0 and 1 yield
  different sequences.
\<close>

theorem datagen_stops_counterexample:
  "datagen 0 2 (Some [[[[0, 0, 2, 2]]]]) True [[1, 0, 0, 2, 2, 5], [1, 2, 2, 4, 4, 5]] no_choice Some
     = ([], Some ValueError)
   \<and> datagen 0 2 (Some [[[[0, 0, 2, 2]]]]) False [[1, 0, 0, 2, 2, 5], [1, 2, 2, 4, 4, 5]] no_choice Some
     = ([], Some ValueError)
   \<and> choice_ok 257 1 [0] \<and> choice_ok 257 1 [1]
   \<and> datagen 0 1 (Some [[replicate 257 [0, 0, 1, 1]]]) True
         [[0, 10, 10, 12, 12, 1], [0, 20, 20, 22, 22, 1]] (no_choice(0 := ([], [0]))) Some
     \<noteq> datagen 0 1 (Some [[replicate 257 [0, 0, 1, 1]]]) False
         [[0, 10, 10, 12, 12, 1], [0, 20, 20, 22, 22, 1]] (no_choice(0 := ([], [1]))) Some"
proof -
  have ld1: "np_loadtxt [[1, 0, 0, 2, 2, 5], [1, 2, 2, 4, 4, 5]]
      = Inr (Table [[1, 0, 0, 2, 2, 5], [1, 2, 2, 4, 4, 5]])"
    by (simp add: np_loadtxt_def ncols_def)
  have stop: "datagen 0 2 (Some [[[[0, 0, 2, 2]]]]) sh [[1, 0, 0, 2, 2, 5], [1, 2, 2, 4, 4, 5]]
      no_choice Some = ([], Some ValueError)" for sh
    by (simp add: datagen_def ld1 default_ancs_def np_arange_def upto.simps datagen_step_def
        gt_boxes_def ncols_def anchors_vs_gt_no_box Let_def)
  have ok: "choice_ok 257 1 [0]" "choice_ok 257 1 [1]" by (simp_all add: choice_ok_def)
  let ?A = "[[replicate 257 [0, 0, 1, 1::real]]]"
  let ?L = "[[0, 10, 10, 12, 12, 1], [0, 20, 20, 22, 22, 1::int]]"
  have ld2: "np_loadtxt ?L = Inr (Table ?L)" by (simp add: np_loadtxt_def ncols_def)
  have dg: "datagen 0 1 (Some ?A) sh ?L rnd Some
      = ([projr (datagen_step ?A (Table ?L) rnd Some 0)], None)"
    if "\<not> isl (datagen_step ?A (Table ?L) rnd Some 0)" for sh rnd
    using that
    by (cases "datagen_step ?A (Table ?L) rnd Some 0")
      (simp_all add: datagen_def ld2 default_ancs_def np_arange_def upto.simps Let_def)
  from far_anchors_step [of 0 "no_choice(0 := ([], [0]))"] obtain x0 yr0 where
    s0: "datagen_step ?A (Table ?L) (no_choice(0 := ([], [0]))) Some 0
      = Inr (x0, [[[replicate 257 0 @ map (\<lambda>b. if b then 1 else 0) ((replicate 257 True)[0 := False])]]], yr0)"
    by auto
  from far_anchors_step [of 1 "no_choice(0 := ([], [1]))"] obtain x1 yr1 where
    s1: "datagen_step ?A (Table ?L) (no_choice(0 := ([], [1]))) Some 0
      = Inr (x1, [[[replicate 257 0 @ map (\<lambda>b. if b then 1 else 0) ((replicate 257 True)[1 := False])]]], yr1)"
    by auto
  have n0: "\<not> isl (datagen_step ?A (Table ?L) (no_choice(0 := ([], [0]))) Some 0)"
    unfolding s0 by simp
  have n1: "\<not> isl (datagen_step ?A (Table ?L) (no_choice(0 := ([], [1]))) Some 0)"
    unfolding s1 by simp
  have d0: "datagen 0 1 (Some ?A) True ?L (no_choice(0 := ([], [0]))) Some
      = ([(x0, [[[replicate 257 0 @ map (\<lambda>b. if b then 1 else 0) ((replicate 257 True)[0 := False])]]], yr0)], None)"
    using dg [OF n0, of True] unfolding s0 by (simp only: sum.sel)
  have d1: "datagen 0 1 (Some ?A) False ?L (no_choice(0 := ([], [1]))) Some
      = ([(x1, [[[replicate 257 0 @ map (\<lambda>b. if b then 1 else 0) ((replicate 257 True)[1 := False])]]], yr1)], None)"
    using dg [OF n1, of False] unfolding s1 by (simp only: sum.sel)
  have differ: "datagen 0 1 (Some ?A) True ?L (no_choice(0 := ([], [0]))) Some
      \<noteq> datagen 0 1 (Some ?A) False ?L (no_choice(0 := ([], [1]))) Some"
    unfolding d0 d1 using one_negative_differs by simp
  show ?thesis using stop ok differ by (intro conjI)
qed

text \<open>
  Two images with one ground-truth box each.
\<close>

theorem datagen_shuffle_ignored_witness:
  "datagen 0 2 (Some [[[[0, 0, 2, 2], [0, 0, 4, 4]]]]) True
       [[0, 0, 0, 2, 2, 1], [1, 0, 0, 4, 4, 1]] no_choice Some
     = datagen 0 2 (Some [[[[0, 0, 2, 2], [0, 0, 4, 4]]]]) False
       [[0, 0, 0, 2, 2, 1], [1, 0, 0, 4, 4, 1]] no_choice Some
   \<and> snd (datagen 0 2 (Some [[[[0, 0, 2, 2], [0, 0, 4, 4]]]]) True
       [[0, 0, 0, 2, 2, 1], [1, 0, 0, 4, 4, 1]] no_choice Some) = None
   \<and> length (fst (datagen 0 2 (Some [[[[0, 0, 2, 2], [0, 0, 4, 4]]]]) True
       [[0, 0, 0, 2, 2, 1], [1, 0, 0, 4, 4, 1]] no_choice Some)) = 2"
proof -
  let ?A = "Some [[[[0, 0, 2, 2], [0, 0, 4, 4::real]]]]"
  let ?csv = "[[0, 0, 0, 2, 2, 1], [1, 0, 0, 4, 4, 1::int]]"
  have h1: "ravel (default_ancs ?A) \<noteq> []" by (simp add: default_ancs_def ravel_def)
  have h2: "2 \<le> length ?csv \<and> 5 \<le> ncols ?csv \<and> (\<forall>row\<in>set ?csv. length row = ncols ?csv)"
    by (simp add: ncols_def)
  have "i = 0 \<or> i = 1" if "0 \<le> i \<and> i < 2" for i :: int using that by auto
  then have h3: "\<forall>i. (0::int) \<le> i \<and> i < 2 \<longrightarrow> (\<exists>row\<in>set ?csv. row ! 0 = i) \<and> Some i \<noteq> None"
    by auto
  have h: "ravel (default_ancs ?A) \<noteq> []
        \<and> 2 \<le> length ?csv \<and> 5 \<le> ncols ?csv \<and> (\<forall>row\<in>set ?csv. length row = ncols ?csv)
        \<and> (\<forall>i. (0::int) \<le> i \<and> i < 2 \<longrightarrow> (\<exists>row\<in>set ?csv. row ! 0 = i) \<and> Some i \<noteq> None)"
    using h1 h2 h3 by (intro conjI) simp_all
  note t = datagen_shuffle_ignored [of 0 2 ?A ?csv no_choice Some True]
  note same = t [THEN conjunct1]
  note all = t [THEN conjunct2, THEN conjunct2, THEN mp, OF h]
  from all have "snd (datagen 0 2 ?A True ?csv no_choice Some) = None"
    by (rule conjunct1)
  moreover from all have "length (fst (datagen 0 2 ?A True ?csv no_choice Some)) = 2"
    by simp
  ultimately show ?thesis using same by (intro conjI)
qed

text \<open>A file of one line loads as a one-dimensional array, and the first step raises.\<close>

lemma datagen_one_line:
  "datagen 0 1 (Some [[[[0, 0, 2, 2]]]]) shuffle [[0, 0, 0, 2, 2, 1]] no_choice Some
     = ([], Some IndexError)"
  by (simp add: datagen_def np_loadtxt_def ncols_def default_ancs_def np_arange_def upto.simps
      datagen_step_def gt_boxes_def Let_def)

end
